theory Spec2Isabelle
  imports Main "HOL-Library.Word" "HOL-Library.AList"
begin

unbundle bit_operations_syntax

section \<open>The bolt shard of the datastore package\<close>

text \<open>
  The development embeds \<^verbatim>\<open>src/datastore/bolt_shard.go\<close>: the shard registry
  (\<^verbatim>\<open>NewBoltShard\<close>, \<^verbatim>\<open>DropDatabase\<close>, \<^verbatim>\<open>close\<close>, \<^verbatim>\<open>IsClosed\<close>), the
  lazy open of \<^verbatim>\<open>Query\<close> and the transactional insert of \<^verbatim>\<open>Write\<close>.

  Go strings and byte slices are byte sequences; a string is a \<^typ>\<open>string\<close> and
  \<^verbatim>\<open>[]byte(s)\<close> is \<open>bytes_of s\<close>. \<^verbatim>\<open>int64\<close> and \<^verbatim>\<open>uint64\<close> are 64-bit words.
  The mutex is not modelled: every operation runs to its end before the next one starts.
\<close>

subsection \<open>Bytes\<close>

type_synonym byte = "8 word"
type_synonym bytes = "byte list"

definition bytes_of :: "string \<Rightarrow> bytes" where
  "bytes_of s = map of_char s"

text \<open>\<^verbatim>\<open>bytes.Compare(a, b) < 0\<close>, the order of the keys of a bucket.\<close>

fun bytes_less :: "bytes \<Rightarrow> bytes \<Rightarrow> bool" where
  "bytes_less [] [] = False"
| "bytes_less [] (y # ys) = True"
| "bytes_less (x # xs) [] = False"
| "bytes_less (x # xs) (y # ys) = (x < y \<or> (x = y \<and> bytes_less xs ys))"

text \<open>
  \<^verbatim>\<open>binary.BigEndian.PutUint64\<close> of the Go library:
  \<^verbatim>\<open>b[0] = byte(v >> 56); b[1] = byte(v >> 48); ...; b[7] = byte(v)\<close>.
\<close>

definition PutUint64 :: "64 word \<Rightarrow> bytes" where
  "PutUint64 v =
     [ucast (drop_bit 56 v), ucast (drop_bit 48 v), ucast (drop_bit 40 v),
      ucast (drop_bit 32 v), ucast (drop_bit 24 v), ucast (drop_bit 16 v),
      ucast (drop_bit 8 v), ucast v]"

text \<open>
  The key buffer, a \<^verbatim>\<open>bytes.Buffer\<close>, is the byte sequence it holds. Its writes never
  fail; \<^verbatim>\<open>binary.Write\<close> of a \<^verbatim>\<open>uint64\<close> in big-endian order appends the eight bytes.
\<close>

definition Reset :: "bytes \<Rightarrow> bytes" where
  "Reset buf = []"

definition WriteString :: "bytes \<Rightarrow> string \<Rightarrow> bytes" where
  "WriteString buf s = buf @ bytes_of s"

definition WriteByte :: "bytes \<Rightarrow> byte \<Rightarrow> bytes" where
  "WriteByte buf c = buf @ [c]"

definition binary_Write :: "bytes \<Rightarrow> 64 word \<Rightarrow> bytes" where
  "binary_Write buf v = buf @ PutUint64 v"

subsection \<open>Errors\<close>

text \<open>
  \<open>ErrShardClosed\<close> is \<^verbatim>\<open>errors.New("shard closed")\<close>. \<open>ErrExternal\<close> is an error value
  that bolt, the protocol buffer library or the operating system returned; the shard hands
  it on unchanged. \<open>GoPanic\<close> is a run-time panic (a nil pointer, an index out of range).
\<close>

datatype error = ErrShardClosed | ErrExternal string | GoPanic

subsection \<open>The payload of a write\<close>

text \<open>
  The structs of the protocol package as \<^verbatim>\<open>Write\<close> reads them. Optional scalar fields
  are pointers, \<open>None\<close> is the nil pointer. The getters \<^verbatim>\<open>GetName\<close> and
  \<^verbatim>\<open>GetTimestamp\<close> return the zero value for a nil pointer. A nil \<^verbatim>\<open>*Series\<close> of the
  batch behaves as a series without a name, and a nil \<^verbatim>\<open>*Point\<close> as a point without a
  sequence number: \<^verbatim>\<open>Write\<close> reaches the same statement with the same store in both
  readings. The field values stay abstract (type \<open>'v\<close>).
\<close>

record 'v Point =
  Timestamp :: "64 word option"
  SequenceNumber :: "64 word option"
  Values :: "'v list"

record 'v Series =
  Name :: "string option"
  Fields :: "string list"
  Points :: "'v Point list"

definition GetTimestamp :: "'v Point \<Rightarrow> 64 word" where
  "GetTimestamp p = (case Timestamp p of None \<Rightarrow> 0 | Some t \<Rightarrow> t)"

definition GetName :: "'v Series \<Rightarrow> string" where
  "GetName serie = (case Name serie of None \<Rightarrow> [] | Some n \<Rightarrow> n)"

definition GetPoints :: "'v Series \<Rightarrow> 'v Point list" where
  "GetPoints serie = Points serie"

subsection \<open>The embedded store\<close>

text \<open>
  A bolt database is a set of named buckets, a bucket a finite map from keys to values.
  \<open>entries\<close> reads a bucket of a store; a bucket that does not exist has no entry.
\<close>

type_synonym bucket = "bytes \<rightharpoonup> bytes"
type_synonym store = "string \<rightharpoonup> bucket"

definition entries :: "(string \<rightharpoonup> (bytes \<rightharpoonup> 'a)) \<Rightarrow> string \<Rightarrow> (bytes \<rightharpoonup> 'a)" where
  "entries st name = (case st name of None \<Rightarrow> Map.empty | Some b \<Rightarrow> b)"

subsection \<open>Go memory: byte slices and the value buffer\<close>

text \<open>
  \<^verbatim>\<open>Write\<close> hands the store byte slices that share one backing array: the value buffer is
  allocated once per series (line 152), reset and filled again for every value (lines 170
  and 171), and the slice \<^verbatim>\<open>valueBuffer.Bytes()\<close> is given to \<^verbatim>\<open>Put\<close> (line 185). The
  memory is therefore explicit. It is the list of the backing arrays allocated so far, each
  as long as its capacity; an address is an index of the list.

  A slice that the store holds is \<open>Const\<close> (bytes nobody writes to any more: an entry read
  from the file, or the nil value) or \<open>Alias a n\<close>, the first \<open>n\<close> bytes of the array at
  address \<open>a\<close>, whatever they are when the slice is read.
\<close>

type_synonym memory = "bytes list"

datatype slice = Const bytes | Alias nat nat

definition array_at :: "memory \<Rightarrow> nat \<Rightarrow> bytes" where
  "array_at mem a = (if a < length mem then mem ! a else [])"

definition resolve :: "memory \<Rightarrow> slice \<Rightarrow> bytes" where
  "resolve mem v = (case v of Const b \<Rightarrow> b | Alias a n \<Rightarrow> take n (array_at mem a))"

text \<open>
  The \<^verbatim>\<open>buf\<close> slice of a \<^verbatim>\<open>proto.Buffer\<close>: its backing array (\<open>None\<close> for the nil
  slice) and its length. \<^verbatim>\<open>proto.NewBuffer(nil)\<close> has the nil slice, \<^verbatim>\<open>Reset\<close> is
  \<^verbatim>\<open>p.buf = p.buf[0:0]\<close> and keeps the array, \<^verbatim>\<open>Bytes\<close> returns the slice.
\<close>

record Buffer =
  array :: "nat option"
  len :: nat

definition NewBuffer :: Buffer where
  "NewBuffer = \<lparr>array = None, len = 0\<rparr>"

definition proto_Reset :: "Buffer \<Rightarrow> Buffer" where
  "proto_Reset p = p\<lparr>len := 0\<rparr>"

definition proto_Bytes :: "Buffer \<Rightarrow> slice" where
  "proto_Bytes p = (case array p of None \<Rightarrow> Const [] | Some a \<Rightarrow> Alias a (len p))"

text \<open>
  What \<^verbatim>\<open>Write\<close> uses and this file does not define: \<^verbatim>\<open>itou\<close> (the conversion of
  the \<^verbatim>\<open>int64\<close> timestamp to \<^verbatim>\<open>uint64\<close>), the getter \<^verbatim>\<open>GetIsNull\<close> of a field
  value, the encoding that \<^verbatim>\<open>Marshal\<close> of the protocol buffer library produces for a
  value (or its error), the capacity that the Go runtime gives to a slice that has to grow
  (from the old capacity and the length needed), and whether the store refuses to create a
  bucket in the current transaction. They are parameters.
\<close>

record 'v tx_env =
  itou :: "64 word \<Rightarrow> 64 word"
  GetIsNull :: "'v \<Rightarrow> bool"
  Marshal :: "'v \<Rightarrow> error + bytes"
  GrowCap :: "nat \<Rightarrow> nat \<Rightarrow> nat"
  CreateBucketErr :: "string \<Rightarrow> (string \<rightharpoonup> (bytes \<rightharpoonup> slice)) \<Rightarrow> error option"

text \<open>
  \<^verbatim>\<open>p.buf = append(p.buf, c)\<close> of the Go language: while the capacity lasts the byte is
  written into the backing array, in place, so every slice of that array sees it; otherwise
  the elements move to a new, larger array and the old array keeps what it holds.
  \<^verbatim>\<open>Marshal\<close> on a buffer appends the encoding of the value to \<^verbatim>\<open>p.buf\<close>, byte after
  byte.
\<close>

definition append_byte :: "'v tx_env \<Rightarrow> memory \<times> Buffer \<Rightarrow> byte \<Rightarrow> memory \<times> Buffer" where
  "append_byte env mp c =
     (case mp of (mem, p) \<Rightarrow>
        (case array p of
           Some a \<Rightarrow>
             if len p < length (array_at mem a)
             then (mem[a := (array_at mem a)[len p := c]], p\<lparr>len := Suc (len p)\<rparr>)
             else (mem @ [take (len p) (array_at mem a) @ c #
                            replicate (GrowCap env (length (array_at mem a)) (Suc (len p))
                                         - Suc (len p)) 0],
                   \<lparr>array = Some (length mem), len = Suc (len p)\<rparr>)
         | None \<Rightarrow>
             (mem @ [c # replicate (GrowCap env 0 1 - 1) 0],
              \<lparr>array = Some (length mem), len = 1\<rparr>)))"

definition proto_Marshal ::
  "'v tx_env \<Rightarrow> 'v \<Rightarrow> memory \<times> Buffer \<Rightarrow> error + memory \<times> Buffer"
where
  "proto_Marshal env v mp =
     (case Marshal env v of
        Inl e \<Rightarrow> Inl e
      | Inr encoded \<Rightarrow> Inr (fold (\<lambda>c mp1. append_byte env mp1 c) encoded mp))"

subsection \<open>The write transaction of the store\<close>

text \<open>
  Modelled from the spec: the transaction interface of the embedded store (bolt is a
  library outside this file). \<^verbatim>\<open>CreateBucketIfNotExists\<close> returns the bucket of that
  name, creating it empty when it is missing, or an error. \<^verbatim>\<open>Put\<close> sets the value of a
  key in a bucket, overwriting the previous value. As the documentation of bolt has it, the
  supplied value must remain valid for the life of the transaction: \<^verbatim>\<open>Put\<close> copies the
  key and keeps the value slice as it is given, and the bytes of the value are read when
  the transaction commits. \<^verbatim>\<open>Write\<close> drops the result
  of \<^verbatim>\<open>Put\<close>, so \<open>Put\<close> has no error here. A bucket handle is the name of the bucket.
\<close>

type_synonym txstore = "string \<rightharpoonup> (bytes \<rightharpoonup> slice)"

definition CreateBucketIfNotExists :: "'v tx_env \<Rightarrow> string \<Rightarrow> txstore \<Rightarrow> error + txstore" where
  "CreateBucketIfNotExists env name t =
     (case CreateBucketErr env name t of
        Some e \<Rightarrow> Inl e
      | None \<Rightarrow> (case t name of None \<Rightarrow> Inr (t(name \<mapsto> Map.empty)) | Some b \<Rightarrow> Inr t))"

definition Put :: "string \<Rightarrow> bytes \<Rightarrow> slice \<Rightarrow> txstore \<Rightarrow> txstore" where
  "Put name k v t = (case t name of None \<Rightarrow> t | Some b \<Rightarrow> t(name \<mapsto> b(k \<mapsto> v)))"

text \<open>
  A transaction starts from the entries of the file and, at its commit, writes every value
  as the memory holds it then.
\<close>

definition begin_tx :: "store \<Rightarrow> txstore" where
  "begin_tx st = (\<lambda>name. map_option (\<lambda>b k. map_option Const (b k)) (st name))"

definition commit_tx :: "memory \<Rightarrow> txstore \<Rightarrow> store" where
  "commit_tx mem t = (\<lambda>name. map_option (\<lambda>b k. map_option (resolve mem) (b k)) (t name))"

subsection \<open>The transactional insert of Write\<close>

text \<open>
  The contents of the key buffer after lines 159 to 164: the series name, a zero byte,
  the timestamp and the sequence number. \<^verbatim>\<open>binary.Write\<close> dereferences the pointer
  \<^verbatim>\<open>point.SequenceNumber\<close>; the caller checks for nil first. The store copies the keys
  it is given, so the keys are plain byte sequences.
\<close>

definition keyBuffer :: "string \<Rightarrow> 64 word \<Rightarrow> 64 word \<Rightarrow> bytes" where
  "keyBuffer seriesName timestamp sequenceNumber =
     binary_Write (binary_Write (WriteByte (WriteString (Reset []) seriesName) 0) timestamp)
       sequenceNumber"

definition fieldBucketKey :: "string \<Rightarrow> string \<Rightarrow> bytes" where
  "fieldBucketKey seriesName field = bytes_of (seriesName @ [CHR 0x00] @ field)"

definition dataBucketKey :: "bytes \<Rightarrow> string \<Rightarrow> bytes" where
  "dataBucketKey kb field = kb @ bytes_of field"

text \<open>What the function of the transaction works on: the memory and the transaction.\<close>

record run =
  mem :: memory
  txn :: txstore

text \<open>
  The loop over \<^verbatim>\<open>serie.Fields\<close> (lines 166 to 186) for one point; \<open>i\<close> is
  \<^verbatim>\<open>fieldIndex\<close>, \<open>kb\<close> the bytes of the key buffer, \<open>valueBuffer\<close> the buffer of the
  series. \<^verbatim>\<open>point.Values[fieldIndex]\<close> panics when the point has fewer values than the
  series has fields. The value handed to \<^verbatim>\<open>Put\<close> is the slice of the buffer, not a copy.
\<close>

fun write_fields ::
  "'v tx_env \<Rightarrow> string \<Rightarrow> bytes \<Rightarrow> 'v list \<Rightarrow> nat \<Rightarrow> string list \<Rightarrow> Buffer \<Rightarrow> run
     \<Rightarrow> error + Buffer \<times> run"
where
  "write_fields env seriesName kb vals i [] valueBuffer st = Inr (valueBuffer, st)"
| "write_fields env seriesName kb vals i (field # rest) valueBuffer st =
     (if length vals \<le> i then Inl GoPanic
      else if GetIsNull env (vals ! i) then
        write_fields env seriesName kb vals (Suc i) rest valueBuffer st
      else (case proto_Marshal env (vals ! i) (mem st, proto_Reset valueBuffer) of
              Inl e \<Rightarrow> Inl e
            | Inr (mem1, valueBuffer1) \<Rightarrow>
                (case CreateBucketIfNotExists env ''fields'' (txn st) of
                   Inl fieldBucketErr \<Rightarrow> Inl fieldBucketErr
                 | Inr t1 \<Rightarrow>
                     write_fields env seriesName kb vals (Suc i) rest valueBuffer1
                       \<lparr>mem = mem1,
                        txn = Put ''data'' (dataBucketKey kb field) (proto_Bytes valueBuffer1)
                                (Put ''fields'' (fieldBucketKey seriesName field) (Const []) t1)\<rparr>)))"

text \<open>The loop over the points of one series (lines 154 to 187).\<close>

fun write_points ::
  "'v tx_env \<Rightarrow> string \<Rightarrow> string list \<Rightarrow> 'v Point list \<Rightarrow> Buffer \<Rightarrow> run
     \<Rightarrow> error + Buffer \<times> run"
where
  "write_points env seriesName fieldNames [] valueBuffer st = Inr (valueBuffer, st)"
| "write_points env seriesName fieldNames (point # rest) valueBuffer st =
     (case SequenceNumber point of
        None \<Rightarrow> Inl GoPanic
      | Some sequenceNumber \<Rightarrow>
          (case write_fields env seriesName
                  (keyBuffer seriesName (itou env (GetTimestamp point)) sequenceNumber)
                  (Values point) 0 fieldNames valueBuffer st of
             Inl e \<Rightarrow> Inl e
           | Inr (valueBuffer1, st1) \<Rightarrow>
               write_points env seriesName fieldNames rest valueBuffer1 st1))"

text \<open>
  The loop over the batch (lines 132 to 188). Every series with a name gets a new value
  buffer (line 152).
\<close>

fun write_series :: "'v tx_env \<Rightarrow> 'v Series list \<Rightarrow> run \<Rightarrow> error + run" where
  "write_series env [] st = Inr st"
| "write_series env (serie # rest) st =
     (if GetName serie = [] then write_series env rest st
      else (case CreateBucketIfNotExists env ''series'' (txn st) of
              Inl e \<Rightarrow> Inl e
            | Inr t1 \<Rightarrow>
                (case CreateBucketIfNotExists env ''data''
                        (Put ''series'' (bytes_of (GetName serie)) (Const []) t1) of
                   Inl e \<Rightarrow> Inl e
                 | Inr t2 \<Rightarrow>
                     (case write_points env (GetName serie) (Fields serie) (GetPoints serie)
                             NewBuffer (st\<lparr>txn := t2\<rparr>) of
                        Inl e \<Rightarrow> Inl e
                      | Inr (valueBuffer, st3) \<Rightarrow> write_series env rest st3))))"

text \<open>
  The function handed to \<^verbatim>\<open>db.Update\<close> (lines 130 to 191). The arrays that earlier code
  allocated play no part, so the memory starts empty.
\<close>

definition transaction :: "'v tx_env \<Rightarrow> 'v Series list \<Rightarrow> txstore \<Rightarrow> error + run" where
  "transaction env series t = write_series env series \<lparr>mem = [], txn = t\<rparr>"

subsection \<open>Database files and handles\<close>

text \<open>
  One file per database. \<open>files\<close> maps the path of a database file to its contents,
  \<open>opened\<close> holds the paths with an open \<^verbatim>\<open>*bolt.DB\<close>. A handle is the path of the
  file it was opened on.
\<close>

type_synonym handle = string

record disk =
  files :: "string \<rightharpoonup> store"
  opened :: "string set"

definition contents :: "disk \<Rightarrow> string \<Rightarrow> store" where
  "contents d path = (case files d path of None \<Rightarrow> Map.empty | Some st \<Rightarrow> st)"

text \<open>
  Whether \<^verbatim>\<open>bolt.Open\<close> and \<^verbatim>\<open>os.Remove\<close> fail is decided outside the shard
  (permissions, a full disk): both are parameters.
\<close>

record os_env =
  OpenErr :: "string \<Rightarrow> disk \<Rightarrow> error option"
  RemoveErr :: "string \<Rightarrow> disk \<Rightarrow> error option"

text \<open>
  Modelled from the spec: the database interface of the embedded store and the removal of a
  file. \<^verbatim>\<open>bolt.Open\<close> opens the file at the path and creates it, empty, when it is
  missing. \<^verbatim>\<open>db.Close\<close> releases the handle. \<^verbatim>\<open>os.Remove\<close> deletes the file or
  returns an error. \<^verbatim>\<open>db.Update\<close> is one atomic transaction: the function runs on a
  transaction over the contents of the database; when it returns an error (or panics) the
  transaction is rolled back and the database is as before, otherwise the transaction
  commits, reading the values from the memory the function left. The commit itself is taken
  to succeed.
\<close>

definition bolt_Open :: "os_env \<Rightarrow> string \<Rightarrow> disk \<Rightarrow> error + handle \<times> disk" where
  "bolt_Open os path d =
     (case OpenErr os path d of
        Some e \<Rightarrow> Inl e
      | None \<Rightarrow>
          Inr (path,
               d\<lparr>files := (case files d path of
                              None \<Rightarrow> (files d)(path \<mapsto> Map.empty)
                            | Some st \<Rightarrow> files d),
                 opened := insert path (opened d)\<rparr>))"

definition Close :: "handle \<Rightarrow> disk \<Rightarrow> disk" where
  "Close db d = d\<lparr>opened := opened d - {db}\<rparr>"

definition os_Remove :: "os_env \<Rightarrow> string \<Rightarrow> disk \<Rightarrow> error option \<times> disk" where
  "os_Remove os path d =
     (case RemoveErr os path d of
        Some e \<Rightarrow> (Some e, d)
      | None \<Rightarrow> (None, d\<lparr>files := (files d)(path := None)\<rparr>))"

definition Update :: "handle \<Rightarrow> (txstore \<Rightarrow> error + run) \<Rightarrow> disk \<Rightarrow> error option \<times> disk" where
  "Update db fn d =
     (case fn (begin_tx (contents d db)) of
        Inl e \<Rightarrow> (Some e, d)
      | Inr st \<Rightarrow> (None, d\<lparr>files := (files d)(db \<mapsto> commit_tx (mem st) (txn st))\<rparr>))"

subsection \<open>The shard\<close>

text \<open>
  \<^verbatim>\<open>BoltShard\<close>. The map \<^verbatim>\<open>dbs\<close> is an association list with one pair per key:
  \<^verbatim>\<open>s.dbs[k] = v\<close> is \<open>AList.update\<close>, \<^verbatim>\<open>delete(s.dbs, k)\<close> is \<open>AList.delete\<close>, a
  lookup is \<open>map_of\<close>.
\<close>

record BoltShard =
  baseDir :: string
  dbs :: "(string \<times> handle) list"
  closed :: bool

definition NewBoltShard :: "string \<Rightarrow> BoltShard" where
  "NewBoltShard dir = \<lparr>baseDir = dir, dbs = [], closed = False\<rparr>"

definition DropDatabase ::
  "os_env \<Rightarrow> string \<Rightarrow> BoltShard \<times> disk \<Rightarrow> error option \<times> BoltShard \<times> disk"
where
  "DropDatabase os database sd =
     (case sd of (s, d) \<Rightarrow>
        (case map_of (dbs s) database of
           None \<Rightarrow> (None, s, d)
         | Some db \<Rightarrow>
            (case os_Remove os (baseDir s @ ''/'' @ database) (Close db d) of
               (r, d1) \<Rightarrow> (r, s\<lparr>dbs := AList.delete database (dbs s)\<rparr>, d1))))"

text \<open>The loop of \<^verbatim>\<open>close\<close> over the entries of the map, then the flag.\<close>

fun close_range :: "(string \<times> handle) list \<Rightarrow> BoltShard \<times> disk \<Rightarrow> BoltShard \<times> disk" where
  "close_range [] sd = sd"
| "close_range ((databaseName, db) # rest) sd =
     (case sd of (s, d) \<Rightarrow>
        close_range rest (s\<lparr>dbs := AList.delete databaseName (dbs s)\<rparr>, Close db d))"

definition close :: "BoltShard \<times> disk \<Rightarrow> BoltShard \<times> disk" where
  "close sd = (case close_range (dbs (fst sd)) sd of (s, d) \<Rightarrow> (s\<lparr>closed := True\<rparr>, d))"

definition IsClosed :: "BoltShard \<Rightarrow> bool" where
  "IsClosed s = closed s"

text \<open>\<^verbatim>\<open>Write\<close>: the closed check, the lazy open, then the transaction.\<close>

definition Write ::
  "os_env \<Rightarrow> 'v tx_env \<Rightarrow> string \<Rightarrow> 'v Series list \<Rightarrow> BoltShard \<times> disk
     \<Rightarrow> error option \<times> BoltShard \<times> disk"
where
  "Write os env database series sd =
     (case sd of (s, d) \<Rightarrow>
        if closed s then (Some ErrShardClosed, s, d)
        else (case map_of (dbs s) database of
                None \<Rightarrow>
                  (case bolt_Open os (baseDir s @ ''/'' @ database) d of
                     Inl err \<Rightarrow> (Some err, s, d)
                   | Inr (db, d1) \<Rightarrow>
                       (case Update db (transaction env series) d1 of
                          (r, d2) \<Rightarrow> (r, s\<lparr>dbs := AList.update database db (dbs s)\<rparr>, d2)))
              | Some db \<Rightarrow>
                  (case Update db (transaction env series) d of
                     (r, d2) \<Rightarrow> (r, s, d2))))"

text \<open>
  \<^verbatim>\<open>Query\<close>. The query description is read through \<^verbatim>\<open>Database\<close> and the three
  classifiers. The four handlers are defined in other files: they are parameters, get the
  handle, the query and the processor, and work on the database files.
\<close>

record querySpec =
  Database :: string
  IsListSeriesQuery :: bool
  IsDropSeriesQuery :: bool
  IsDeleteFromSeriesQuery :: bool

record 'p handlers =
  executeListSeriesQuery :: "handle \<Rightarrow> querySpec \<Rightarrow> 'p \<Rightarrow> disk \<Rightarrow> error option \<times> disk"
  executeDropSeriesQuery :: "handle \<Rightarrow> querySpec \<Rightarrow> 'p \<Rightarrow> disk \<Rightarrow> error option \<times> disk"
  executeDeleteFromSeriesQuery :: "handle \<Rightarrow> querySpec \<Rightarrow> 'p \<Rightarrow> disk \<Rightarrow> error option \<times> disk"
  executeSeriesQuery :: "handle \<Rightarrow> querySpec \<Rightarrow> 'p \<Rightarrow> disk \<Rightarrow> error option \<times> disk"

definition dispatch ::
  "'p handlers \<Rightarrow> handle \<Rightarrow> querySpec \<Rightarrow> 'p \<Rightarrow> disk \<Rightarrow> error option \<times> disk"
where
  "dispatch hs db querySpec processor d =
     (if IsListSeriesQuery querySpec then executeListSeriesQuery hs db querySpec processor d
      else if IsDropSeriesQuery querySpec then executeDropSeriesQuery hs db querySpec processor d
      else if IsDeleteFromSeriesQuery querySpec
        then executeDeleteFromSeriesQuery hs db querySpec processor d
      else executeSeriesQuery hs db querySpec processor d)"

definition Query ::
  "os_env \<Rightarrow> 'p handlers \<Rightarrow> querySpec \<Rightarrow> 'p \<Rightarrow> BoltShard \<times> disk
     \<Rightarrow> error option \<times> BoltShard \<times> disk"
where
  "Query os hs querySpec processor sd =
     (case sd of (s, d) \<Rightarrow>
        (case map_of (dbs s) (Database querySpec) of
           None \<Rightarrow>
             (case bolt_Open os (baseDir s @ ''/'' @ Database querySpec) d of
                Inl err \<Rightarrow> (Some err, s, d)
              | Inr (db, d1) \<Rightarrow>
                  (case dispatch hs db querySpec processor d1 of
                     (r, d2) \<Rightarrow>
                       (r, s\<lparr>dbs := AList.update (Database querySpec) db (dbs s)\<rparr>, d2)))
         | Some db \<Rightarrow>
             (case dispatch hs db querySpec processor d of
                (r, d2) \<Rightarrow> (r, s, d2))))"

subsection \<open>Sequences of calls\<close>

text \<open>
  A sequence of committed writes: every call of \<^verbatim>\<open>Write\<close> returns nil and the next call
  starts from the state the previous one left. \<open>None\<close> when a call returns an error.
\<close>

fun Writes ::
  "os_env \<Rightarrow> 'v tx_env \<Rightarrow> (string \<times> 'v Series list) list \<Rightarrow> BoltShard \<times> disk
     \<Rightarrow> (BoltShard \<times> disk) option"
where
  "Writes os env [] sd = Some sd"
| "Writes os env ((database, series) # rest) sd =
     (case Write os env database series sd of
        (None, sd1) \<Rightarrow> Writes os env rest sd1
      | (Some e, sd1) \<Rightarrow> None)"

text \<open>Any call of the shard, its result dropped, and a run of such calls.\<close>

datatype ('v, 'p) call =
    CallWrite string "'v Series list"
  | CallQuery querySpec 'p
  | CallDropDatabase string
  | CallClose

fun call_step ::
  "os_env \<Rightarrow> 'v tx_env \<Rightarrow> 'p handlers \<Rightarrow> ('v, 'p) call \<Rightarrow> BoltShard \<times> disk \<Rightarrow> BoltShard \<times> disk"
where
  "call_step os env hs (CallWrite database series) sd = snd (Write os env database series sd)"
| "call_step os env hs (CallQuery querySpec processor) sd = snd (Query os hs querySpec processor sd)"
| "call_step os env hs (CallDropDatabase database) sd = snd (DropDatabase os database sd)"
| "call_step os env hs CallClose sd = close sd"

fun calls ::
  "os_env \<Rightarrow> 'v tx_env \<Rightarrow> 'p handlers \<Rightarrow> ('v, 'p) call list \<Rightarrow> BoltShard \<times> disk
     \<Rightarrow> BoltShard \<times> disk"
where
  "calls os env hs [] sd = sd"
| "calls os env hs (c # cs) sd = calls os env hs cs (call_step os env hs c sd)"

subsection \<open>The key formats and the write contract, in the words of the specification\<close>

text \<open>
  The \<open>k\<close>-byte big-endian representation of a number: the digits to the base 256, the
  most significant first.
\<close>

fun be_bytes :: "nat \<Rightarrow> nat \<Rightarrow> bytes" where
  "be_bytes 0 n = []"
| "be_bytes (Suc k) n = be_bytes k (n div 256) @ [of_nat (n mod 256)]"

text \<open>
  The data key: the series name, one zero byte, the 8-byte big-endian unsigned timestamp,
  the 8-byte big-endian sequence number, the field name. The fields key: the series name,
  one zero byte, the field name.
\<close>

definition spec_data_key :: "string \<Rightarrow> 64 word \<Rightarrow> 64 word \<Rightarrow> string \<Rightarrow> bytes" where
  "spec_data_key name ts sq field =
     bytes_of name @ [0] @ be_bytes 8 (unat ts) @ be_bytes 8 (unat sq) @ bytes_of field"

definition spec_fields_key :: "string \<Rightarrow> string \<Rightarrow> bytes" where
  "spec_fields_key name field = bytes_of name @ [0] @ bytes_of field"

text \<open>
  A mutation sets one key of one bucket; it acts on the entries of a store, bucket by
  bucket. The mutations of a batch, as the write contract
  lists them: for each series with a non-empty name its entry in \<open>series\<close>; for each of
  its points and each field position whose value is not null, the entry in \<open>fields\<close> and
  the entry of the encoded value in \<open>data\<close>.
\<close>

type_synonym mutation = "string \<times> bytes \<times> bytes"

definition apply_mutation ::
  "string \<times> bytes \<times> 'a \<Rightarrow> (string \<Rightarrow> (bytes \<rightharpoonup> 'a)) \<Rightarrow> (string \<Rightarrow> (bytes \<rightharpoonup> 'a))"
where
  "apply_mutation m E = (case m of (name, k, v) \<Rightarrow> E(name := (E name)(k \<mapsto> v)))"

definition apply_mutations ::
  "(string \<times> bytes \<times> 'a) list \<Rightarrow> (string \<Rightarrow> (bytes \<rightharpoonup> 'a)) \<Rightarrow> (string \<Rightarrow> (bytes \<rightharpoonup> 'a))"
where
  "apply_mutations ms E = fold apply_mutation ms E"

text \<open>The bucket and the key that a mutation sets.\<close>

definition mutation_key :: "string \<times> bytes \<times> 'a \<Rightarrow> string \<times> bytes" where
  "mutation_key m = (fst m, fst (snd m))"

definition value_mutations :: "'v tx_env \<Rightarrow> string \<Rightarrow> 'v Point \<Rightarrow> string \<times> 'v \<Rightarrow> mutation list" where
  "value_mutations env name point fv =
     (case fv of (field, v) \<Rightarrow>
        if GetIsNull env v then []
        else (case (Marshal env v, SequenceNumber point) of
                (Inr encoded, Some sq) \<Rightarrow>
                  [(''fields'', spec_fields_key name field, []),
                   (''data'', spec_data_key name (itou env (GetTimestamp point)) sq field, encoded)]
              | _ \<Rightarrow> []))"

definition point_mutations :: "'v tx_env \<Rightarrow> string \<Rightarrow> string list \<Rightarrow> 'v Point \<Rightarrow> mutation list" where
  "point_mutations env name fieldNames point =
     concat (map (value_mutations env name point) (zip fieldNames (Values point)))"

definition series_mutations :: "'v tx_env \<Rightarrow> 'v Series \<Rightarrow> mutation list" where
  "series_mutations env serie =
     (if GetName serie = [] then []
      else (''series'', bytes_of (GetName serie), []) #
           concat (map (point_mutations env (GetName serie) (Fields serie)) (GetPoints serie)))"

definition batch_mutations :: "'v tx_env \<Rightarrow> 'v Series list \<Rightarrow> mutation list" where
  "batch_mutations env series = concat (map (series_mutations env) series)"

text \<open>
  A batch is encodable when every point of a named series has a sequence number and a value
  for every field of the series, and every value that is not null can be serialized.
\<close>

definition encodable_point :: "'v tx_env \<Rightarrow> string list \<Rightarrow> 'v Point \<Rightarrow> bool" where
  "encodable_point env fieldNames point =
     (SequenceNumber point \<noteq> None \<and> length fieldNames \<le> length (Values point) \<and>
      (\<forall>i<length fieldNames.
         GetIsNull env (Values point ! i) \<or> (\<exists>encoded. Marshal env (Values point ! i) = Inr encoded)))"

definition encodable :: "'v tx_env \<Rightarrow> 'v Series list \<Rightarrow> bool" where
  "encodable env series =
     (\<forall>serie\<in>set series. GetName serie \<noteq> [] \<longrightarrow>
        (\<forall>point\<in>set (GetPoints serie). encodable_point env (Fields serie) point))"

text \<open>
  The index invariant of a store: every key of \<open>data\<close> was built from a series name and a
  field name such that the name has its entry in \<open>series\<close> and the pair its entry in
  \<open>fields\<close>.
\<close>

definition index_inv :: "store \<Rightarrow> bool" where
  "index_inv st =
     (\<forall>k\<in>dom (entries st ''data'').
        \<exists>name ts sq field.
          k = dataBucketKey (keyBuffer name ts sq) field \<and>
          bytes_of name \<in> dom (entries st ''series'') \<and>
          fieldBucketKey name field \<in> dom (entries st ''fields''))"

text \<open>
  The non-null values of a batch: the batch carries, in a named series, a point with a
  non-null value at a field position, and \<open>fk\<close>, \<open>dk\<close> are the keys of that value in
  \<open>fields\<close> and in \<open>data\<close>.
\<close>

definition carries :: "'v tx_env \<Rightarrow> 'v Series list \<Rightarrow> bytes \<Rightarrow> bytes \<Rightarrow> bool" where
  "carries env series fk dk =
     (\<exists>serie\<in>set series. GetName serie \<noteq> [] \<and>
        (\<exists>point\<in>set (GetPoints serie). \<exists>i<length (Fields serie). \<exists>sq.
           i < length (Values point) \<and> \<not> GetIsNull env (Values point ! i) \<and>
           SequenceNumber point = Some sq \<and>
           fk = fieldBucketKey (GetName serie) (Fields serie ! i) \<and>
           dk = dataBucketKey (keyBuffer (GetName serie) (itou env (GetTimestamp point)) sq)
                  (Fields serie ! i)))"

text \<open>Every handle of the cache was opened on the file of its database.\<close>

definition cache_ok :: "BoltShard \<Rightarrow> bool" where
  "cache_ok s = (\<forall>(name, db)\<in>set (dbs s). db = baseDir s @ ''/'' @ name)"

text \<open>All values of all points of the batch are null, and the points are well formed.\<close>

definition all_null :: "'v tx_env \<Rightarrow> 'v Series list \<Rightarrow> bool" where
  "all_null env series =
     (\<forall>serie\<in>set series. \<forall>point\<in>set (GetPoints serie).
        SequenceNumber point \<noteq> None \<and> length (Fields serie) \<le> length (Values point) \<and>
        (\<forall>i<length (Fields serie). GetIsNull env (Values point ! i)))"

subsection \<open>Example values\<close>

text \<open>
  A field value is a number or null; serialization fails for the number 255 and is, for a
  number below 128, the two bytes that the protocol buffer encoding has for an
  \<^verbatim>\<open>int64_value\<close> (the tag 40, then the number). A slice that grows gets at least eight
  bytes and at least twice its capacity. No call of the store or of the operating system
  fails.
\<close>

definition ex_env :: "nat option tx_env" where
  "ex_env = \<lparr>itou = (\<lambda>t. t + 9223372036854775808),
             GetIsNull = (\<lambda>v. v = None),
             Marshal = (\<lambda>v. case v of
                               None \<Rightarrow> Inl (ErrExternal ''nil'')
                             | Some n \<Rightarrow> if n = 255 then Inl (ErrExternal ''marshal'')
                                          else Inr [40, of_nat n]),
             GrowCap = (\<lambda>c n. max 8 (max n (2 * c))),
             CreateBucketErr = (\<lambda>name t. None)\<rparr>"

definition ex_os :: os_env where
  "ex_os = \<lparr>OpenErr = (\<lambda>path d. None), RemoveErr = (\<lambda>path d. None)\<rparr>"

definition ex_os_fail :: os_env where
  "ex_os_fail = \<lparr>OpenErr = (\<lambda>path d. None),
                 RemoveErr = (\<lambda>path d. Some (ErrExternal ''remove''))\<rparr>"

definition ex_handlers :: "unit handlers" where
  "ex_handlers = \<lparr>executeListSeriesQuery = (\<lambda>db q p d. (None, d)),
                   executeDropSeriesQuery = (\<lambda>db q p d. (None, d)),
                   executeDeleteFromSeriesQuery = (\<lambda>db q p d. (None, d)),
                   executeSeriesQuery = (\<lambda>db q p d. (None, d))\<rparr>"

definition ex_disk :: disk where
  "ex_disk = \<lparr>files = Map.empty, opened = {}\<rparr>"

definition ex_point :: "nat option Point" where
  "ex_point = \<lparr>Timestamp = Some 1, SequenceNumber = Some 2, Values = [Some 7, None]\<rparr>"

definition ex_serie :: "nat option Series" where
  "ex_serie = \<lparr>Name = Some ''s'', Fields = [''a'', ''b''], Points = [ex_point]\<rparr>"

definition ex_unnamed :: "nat option Series" where
  "ex_unnamed = \<lparr>Name = None, Fields = [''a''], Points = [ex_point]\<rparr>"

definition ex_bad_serie :: "nat option Series" where
  "ex_bad_serie =
     \<lparr>Name = Some ''t'', Fields = [''a''],
      Points = [\<lparr>Timestamp = Some 1, SequenceNumber = Some 2, Values = [Some 255]\<rparr>]\<rparr>"

definition ex_null_serie :: "nat option Series" where
  "ex_null_serie =
     \<lparr>Name = Some ''n'', Fields = [''a''],
      Points = [\<lparr>Timestamp = None, SequenceNumber = Some 0, Values = [None]\<rparr>]\<rparr>"

definition ex_empty_serie :: "nat option Series" where
  "ex_empty_serie = \<lparr>Name = Some ''e'', Fields = [''a''], Points = []\<rparr>"

text \<open>A new shard over no files, the batches, and the state after one write and after two.\<close>

definition ex_start :: "BoltShard \<times> disk" where
  "ex_start = (NewBoltShard ''dir'', ex_disk)"

definition ex_written :: "BoltShard \<times> disk" where
  "ex_written = snd (Write ex_os ex_env ''db'' [ex_serie] ex_start)"

definition ex_rewritten :: "BoltShard \<times> disk" where
  "ex_rewritten = snd (Write ex_os ex_env ''db'' [ex_serie] ex_written)"

definition ex_failed :: "BoltShard \<times> disk" where
  "ex_failed = snd (Write ex_os ex_env ''db'' [ex_serie, ex_bad_serie] ex_start)"

definition ex_nulls :: "BoltShard \<times> disk" where
  "ex_nulls = snd (Write ex_os ex_env ''db'' [ex_null_serie, ex_empty_serie] ex_start)"

text \<open>A series with two fields and one point whose two values are the numbers 7 and 9.\<close>

definition ex_two_serie :: "nat option Series" where
  "ex_two_serie =
     \<lparr>Name = Some ''s'', Fields = [''a'', ''b''],
      Points = [\<lparr>Timestamp = Some 1, SequenceNumber = Some 2, Values = [Some 7, Some 9]\<rparr>]\<rparr>"

definition ex_two :: "BoltShard \<times> disk" where
  "ex_two = snd (Write ex_os ex_env ''db'' [ex_two_serie] ex_start)"

definition ex_writes :: "(string \<times> nat option Series list) list" where
  "ex_writes = [(''db'', [ex_serie]), (''db'', [ex_null_serie])]"

definition ex_query :: querySpec where
  "ex_query = \<lparr>Database = ''db'', IsListSeriesQuery = True, IsDropSeriesQuery = False,
                IsDeleteFromSeriesQuery = False\<rparr>"

subsection \<open>Big-endian bytes and the order of keys\<close>

lemma byte_of_drop:
  "(ucast (drop_bit k (v::64 word)) :: byte) = of_nat ((unat v div 2 ^ k) mod 256)"
proof -
  have "unat (ucast (drop_bit k v) :: byte) = take_bit 8 (drop_bit k (unat v))"
    by (simp only: unsigned_ucast_eq unat_drop_bit_eq) simp
  also have "\<dots> = (unat v div 2 ^ k) mod 256"
    by (simp add: take_bit_eq_mod drop_bit_eq_div)
  also have "\<dots> = unat (of_nat ((unat v div 2 ^ k) mod 256) :: byte)"
    by (simp add: unsigned_of_nat take_bit_eq_mod)
  finally show ?thesis by (rule unsigned_word_eqI)
qed

lemma byte_of_low: "(ucast (v::64 word) :: byte) = of_nat (unat v mod 256)"
  using byte_of_drop [of 0 v] by simp

lemma eight_Suc: "(8::nat) = Suc (Suc (Suc (Suc (Suc (Suc (Suc (Suc 0)))))))"
  by simp

lemma be_bytes_8:
  "be_bytes 8 n =
     [of_nat (n div 2 ^ 56 mod 256), of_nat (n div 2 ^ 48 mod 256), of_nat (n div 2 ^ 40 mod 256),
      of_nat (n div 2 ^ 32 mod 256), of_nat (n div 2 ^ 24 mod 256), of_nat (n div 2 ^ 16 mod 256),
      of_nat (n div 2 ^ 8 mod 256), of_nat (n mod 256)]"
  unfolding eight_Suc by (simp add: div_mult2_eq [symmetric])

lemma PutUint64_be: "PutUint64 v = be_bytes 8 (unat v)"
  unfolding be_bytes_8 PutUint64_def byte_of_drop by (simp add: byte_of_low)

lemma length_be_bytes: "length (be_bytes k n) = k"
  by (induction k arbitrary: n) auto

lemma bytes_less_append_same: "bytes_less (p @ a) (p @ b) = bytes_less a b"
  by (induction p) auto

lemma bytes_less_irrefl: "\<not> bytes_less a a"
  by (induction a) auto

lemma bytes_less_append_right:
  "length a = length b \<Longrightarrow>
   bytes_less (a @ x) (b @ y) = (bytes_less a b \<or> (a = b \<and> bytes_less x y))"
  by (induction a b rule: bytes_less.induct) (auto simp: bytes_less_append_same)

lemma byte_of_nat_less:
  "a < 256 \<Longrightarrow> b < 256 \<Longrightarrow> ((of_nat a :: byte) < of_nat b) = (a < b)"
  by (simp add: word_less_nat_alt unsigned_of_nat take_bit_eq_mod)

lemma div256_less: "m < 256 ^ Suc k \<Longrightarrow> m div 256 < (256::nat) ^ k"
proof -
  assume "m < 256 ^ Suc k"
  then have "m < 256 ^ k * 256" by simp
  then show ?thesis by (rule less_mult_imp_div_less)
qed

lemma digits_less:
  fixes a b c d :: nat
  assumes "b < 256" and "d < 256"
  shows "(a < c \<or> a = c \<and> b < d) = (256 * a + b < 256 * c + d)"
  using assms by linarith

lemma be_bytes_less:
  "m < 256 ^ k \<Longrightarrow> n < 256 ^ k \<Longrightarrow> bytes_less (be_bytes k m) (be_bytes k n) = (m < n)"
proof (induction k arbitrary: m n)
  case 0
  then show ?case by simp
next
  case (Suc k)
  have dm: "m div 256 < 256 ^ k" and dn: "n div 256 < 256 ^ k"
    using Suc.prems by (simp_all only: div256_less)
  have lt: "bytes_less (be_bytes k (m div 256)) (be_bytes k (n div 256)) = (m div 256 < n div 256)"
    by (rule Suc.IH [OF dm dn])
  have gt: "bytes_less (be_bytes k (n div 256)) (be_bytes k (m div 256)) = (n div 256 < m div 256)"
    by (rule Suc.IH [OF dn dm])
  have inj: "(be_bytes k (m div 256) = be_bytes k (n div 256)) = (m div 256 = n div 256)"
  proof
    assume eq: "be_bytes k (m div 256) = be_bytes k (n div 256)"
    show "m div 256 = n div 256"
    proof (rule ccontr)
      assume "m div 256 \<noteq> n div 256"
      then have "m div 256 < n div 256 \<or> n div 256 < m div 256" by linarith
      with lt gt eq show False by (simp add: bytes_less_irrefl)
    qed
  next
    assume "m div 256 = n div 256"
    then show "be_bytes k (m div 256) = be_bytes k (n div 256)" by simp
  qed
  have "bytes_less (be_bytes (Suc k) m) (be_bytes (Suc k) n) =
        (m div 256 < n div 256 \<or> (m div 256 = n div 256 \<and> m mod 256 < n mod 256))"
    by (simp add: bytes_less_append_right length_be_bytes lt inj byte_of_nat_less)
  also have "\<dots> = (256 * (m div 256) + m mod 256 < 256 * (n div 256) + n mod 256)"
    by (rule digits_less) simp_all
  also have "\<dots> = (m < n)"
    by simp
  finally show ?case .
qed

lemma PutUint64_less: "bytes_less (PutUint64 v) (PutUint64 w) = (v < w)"
proof -
  have "unat v < 2 ^ 64" "unat w < 2 ^ 64"
    using unsigned_less [of v, where ?'a = nat] unsigned_less [of w, where ?'a = nat] by simp_all
  then have "unat v < 256 ^ 8" "unat w < 256 ^ 8" by simp_all
  then show ?thesis
    by (simp only: PutUint64_be be_bytes_less word_less_nat_alt)
qed

lemma length_PutUint64: "length (PutUint64 v) = 8"
  by (simp add: PutUint64_def)

lemma keyBuffer_eq:
  "keyBuffer name ts sq = bytes_of name @ [0] @ PutUint64 ts @ PutUint64 sq"
  by (simp add: keyBuffer_def binary_Write_def WriteByte_def WriteString_def Reset_def)

lemma dataBucketKey_spec:
  "dataBucketKey (keyBuffer name ts sq) field = spec_data_key name ts sq field"
  by (simp add: dataBucketKey_def keyBuffer_eq spec_data_key_def PutUint64_be)

lemma fieldBucketKey_spec: "fieldBucketKey name field = spec_fields_key name field"
  by (simp add: fieldBucketKey_def spec_fields_key_def bytes_of_def)

text \<open>
  C4. For one series name the data keys sort, byte by byte, by the timestamp written to the
  key (the unsigned value), then by the sequence number, then by the field name: a lower
  timestamp sorts first whatever the sequence numbers and field names are, and with equal
  timestamps a lower sequence number sorts first whatever the field names are.
\<close>

theorem C4_key_order:
  "(ts1 < ts2 \<longrightarrow>
      bytes_less (dataBucketKey (keyBuffer name ts1 sq1) f1)
                 (dataBucketKey (keyBuffer name ts2 sq2) f2)) \<and>
   (sq1 < sq2 \<longrightarrow>
      bytes_less (dataBucketKey (keyBuffer name ts sq1) f1)
                 (dataBucketKey (keyBuffer name ts sq2) f2)) \<and>
   (bytes_less (bytes_of f1) (bytes_of f2) \<longrightarrow>
      bytes_less (dataBucketKey (keyBuffer name ts sq) f1)
                 (dataBucketKey (keyBuffer name ts sq) f2))"
proof -
  have split:
    "bytes_less (dataBucketKey (keyBuffer name a b) f) (dataBucketKey (keyBuffer name c d) g) =
       (a < c \<or> (PutUint64 a = PutUint64 c \<and> (b < d \<or> (PutUint64 b = PutUint64 d \<and>
          bytes_less (bytes_of f) (bytes_of g)))))"
    for a b c d f g
  proof -
    have "bytes_less (dataBucketKey (keyBuffer name a b) f) (dataBucketKey (keyBuffer name c d) g) =
          bytes_less (PutUint64 a @ (PutUint64 b @ bytes_of f)) (PutUint64 c @ (PutUint64 d @ bytes_of g))"
      using bytes_less_append_same [of "bytes_of name @ [0]"]
      by (simp add: dataBucketKey_def keyBuffer_eq)
    also have "\<dots> = (a < c \<or> (PutUint64 a = PutUint64 c \<and>
          bytes_less (PutUint64 b @ bytes_of f) (PutUint64 d @ bytes_of g)))"
      by (simp add: bytes_less_append_right length_PutUint64 PutUint64_less)
    also have "bytes_less (PutUint64 b @ bytes_of f) (PutUint64 d @ bytes_of g) =
          (b < d \<or> (PutUint64 b = PutUint64 d \<and> bytes_less (bytes_of f) (bytes_of g)))"
      by (simp add: bytes_less_append_right length_PutUint64 PutUint64_less)
    finally show ?thesis .
  qed
  show ?thesis by (simp add: split)
qed

theorem C4_key_order_witness:
  "bytes_less (dataBucketKey (keyBuffer ''s'' 1 9) ''z'') (dataBucketKey (keyBuffer ''s'' 256 0) ''a'') \<and>
   bytes_less (dataBucketKey (keyBuffer ''s'' 5 1) ''z'') (dataBucketKey (keyBuffer ''s'' 5 2) ''a'') \<and>
   bytes_less (dataBucketKey (keyBuffer ''s'' 5 1) ''a'') (dataBucketKey (keyBuffer ''s'' 5 1) ''b'')"
proof -
  have a: "(1::64 word) < 256" by simp
  have b: "(1::64 word) < 2" by simp
  have c: "bytes_less (bytes_of ''a'') (bytes_of ''b'')" by (simp add: bytes_of_def)
  show ?thesis
    using a b c
      C4_key_order [where ?ts1.0 = 1 and ?ts2.0 = 256 and name = "''s''" and ?sq1.0 = 9
        and ?sq2.0 = 0 and ?f1.0 = "''z''" and ?f2.0 = "''a''"]
      C4_key_order [where ?sq1.0 = 1 and ?sq2.0 = 2 and name = "''s''" and ts = 5
        and ?f1.0 = "''z''" and ?f2.0 = "''a''"]
      C4_key_order [where sq = 1 and name = "''s''" and ts = 5
        and ?f1.0 = "''a''" and ?f2.0 = "''b''"]
    by simp
qed

subsection \<open>Mutations\<close>

lemma apply_mutations_Nil: "apply_mutations [] E = E"
  by (simp add: apply_mutations_def)

lemma apply_mutations_Cons:
  "apply_mutations (m # ms) E = apply_mutations ms (apply_mutation m E)"
  by (simp add: apply_mutations_def)

lemma apply_mutations_append:
  "apply_mutations (a @ b) E = apply_mutations b (apply_mutations a E)"
  by (simp add: apply_mutations_def)

lemma apply_mutation_at:
  "apply_mutation (n, k, v) E n' k' = (if n' = n \<and> k' = k then Some v else E n' k')"
  by (simp add: apply_mutation_def)

lemma apply_mutations_untouched:
  "\<forall>v. (n, k, v) \<notin> set ms \<Longrightarrow> apply_mutations ms E n k = E n k"
proof (induction ms arbitrary: E)
  case Nil
  then show ?case by (simp add: apply_mutations_Nil)
next
  case (Cons m ms)
  obtain n0 k0 v0 where m: "m = (n0, k0, v0)" by (cases m)
  from Cons.prems have rest: "\<forall>v. (n, k, v) \<notin> set ms" and here: "\<not> (n = n0 \<and> k = k0)"
    by (auto simp: m)
  have "apply_mutations (m # ms) E n k = apply_mutation m E n k"
    by (simp add: apply_mutations_Cons Cons.IH [OF rest])
  also have "\<dots> = E n k"
    using here by (auto simp: m apply_mutation_at)
  finally show ?case .
qed

lemma apply_mutations_touched:
  "(n, k, v) \<in> set ms \<Longrightarrow> \<exists>w. (n, k, w) \<in> set ms \<and> apply_mutations ms E n k = Some w"
proof (induction ms arbitrary: E v)
  case Nil
  then show ?case by simp
next
  case (Cons m ms)
  obtain n0 k0 v0 where m: "m = (n0, k0, v0)" by (cases m)
  show ?case
  proof (cases "\<exists>w. (n, k, w) \<in> set ms")
    case True
    then obtain w where "(n, k, w) \<in> set ms" by blast
    from Cons.IH [OF this, of "apply_mutation m E"]
    show ?thesis by (auto simp: apply_mutations_Cons)
  next
    case False
    with Cons.prems have eq: "n = n0" "k = k0" by (auto simp: m)
    from False have "apply_mutations ms (apply_mutation m E) n k = apply_mutation m E n k"
      by (simp add: apply_mutations_untouched)
    then show ?thesis
      by (auto simp: apply_mutations_Cons m eq apply_mutation_at)
  qed
qed

lemma dom_apply_mutations:
  "dom (apply_mutations ms E n) = dom (E n) \<union> {k. \<exists>v. (n, k, v) \<in> set ms}"
proof (rule set_eqI)
  fix k
  show "k \<in> dom (apply_mutations ms E n) \<longleftrightarrow> k \<in> dom (E n) \<union> {k. \<exists>v. (n, k, v) \<in> set ms}"
  proof (cases "\<exists>v. (n, k, v) \<in> set ms")
    case True
    then obtain v where "(n, k, v) \<in> set ms" by blast
    from apply_mutations_touched [OF this, of E] True show ?thesis by auto
  next
    case False
    then have "apply_mutations ms E n k = E n k" by (simp add: apply_mutations_untouched)
    with False show ?thesis by (auto simp: dom_def)
  qed
qed

lemma apply_mutations_determined:
  "(\<And>n k. \<forall>v. (n, k, v) \<notin> set ms \<Longrightarrow> E n k = E' n k) \<Longrightarrow>
   apply_mutations ms E = apply_mutations ms E'"
proof (induction ms arbitrary: E E')
  case Nil
  have "E n = E' n" for n
    using Nil by (intro ext) simp
  then show ?case by (simp add: apply_mutations_Nil fun_eq_iff)
next
  case (Cons m ms)
  obtain n0 k0 v0 where m: "m = (n0, k0, v0)" by (cases m)
  have "apply_mutations ms (apply_mutation m E) = apply_mutations ms (apply_mutation m E')"
  proof (rule Cons.IH)
    fix n k
    assume un: "\<forall>v. (n, k, v) \<notin> set ms"
    show "apply_mutation m E n k = apply_mutation m E' n k"
    proof (cases "n = n0 \<and> k = k0")
      case True
      then show ?thesis by (simp add: m apply_mutation_at)
    next
      case False
      with un have "\<forall>v. (n, k, v) \<notin> set (m # ms)" by (auto simp: m)
      then have "E n k = E' n k" by (rule Cons.prems)
      with False show ?thesis by (auto simp: m apply_mutation_at)
    qed
  qed
  then show ?case by (simp add: apply_mutations_Cons)
qed

lemma apply_mutations_twice:
  "apply_mutations ms (apply_mutations ms E) = apply_mutations ms E"
  by (rule apply_mutations_determined) (simp add: apply_mutations_untouched)

lemma key_in_mutations:
  "(\<exists>v. (n, k, v) \<in> set ms) = ((n, k) \<in> set (map mutation_key ms))"
  by (force simp: mutation_key_def image_iff)

lemma same_keys:
  "map mutation_key ms = map mutation_key ms' \<Longrightarrow>
   (\<exists>v. (n, k, v) \<in> set ms) = (\<exists>v. (n, k, v) \<in> set ms')"
  by (simp only: key_in_mutations)

lemma apply_mutations_map:
  "(\<lambda>n k. map_option f (apply_mutations ms E n k)) =
   apply_mutations (map (\<lambda>m. (fst m, fst (snd m), f (snd (snd m)))) ms)
     (\<lambda>n k. map_option f (E n k))"
proof (induction ms arbitrary: E)
  case Nil
  then show ?case by (simp add: apply_mutations_Nil)
next
  case (Cons m ms)
  obtain n0 k0 v0 where m: "m = (n0, k0, v0)" by (cases m)
  have "(\<lambda>n k. map_option f (apply_mutation m E n k)) =
        apply_mutation (n0, k0, f v0) (\<lambda>n k. map_option f (E n k))"
    by (intro ext) (simp add: m apply_mutation_at)
  with Cons.IH [of "apply_mutation m E"] show ?case
    by (simp add: apply_mutations_Cons m)
qed

lemma keys_map_values:
  "map mutation_key (map (\<lambda>m. (fst m, fst (snd m), f (snd (snd m)))) ms) = map mutation_key ms"
  by (simp add: mutation_key_def)

subsection \<open>The store operations on the entries\<close>

lemma entries_Put:
  "t n \<noteq> None \<Longrightarrow> entries (Put n k v t) = apply_mutation (n, k, v) (entries t)"
  by (auto simp: entries_def Put_def apply_mutation_def fun_eq_iff split: option.splits)

lemma Put_bucket_exists: "(Put n k v t m = None) = (t m = None)"
  by (auto simp: Put_def split: option.splits)

lemma CreateBucket_Inr:
  assumes "CreateBucketIfNotExists env n t = Inr t1"
  shows "entries t1 = entries t" and "t1 n \<noteq> None" and "t m \<noteq> None \<Longrightarrow> t1 m \<noteq> None"
proof -
  have eq: "t1 = (case t n of None \<Rightarrow> t(n \<mapsto> Map.empty) | Some b \<Rightarrow> t)"
    using assms by (auto simp: CreateBucketIfNotExists_def split: option.splits)
  show "entries t1 = entries t"
    unfolding eq by (cases "t n") (auto simp: entries_def fun_eq_iff)
  show "t1 n \<noteq> None"
    unfolding eq by (cases "t n") auto
  show "t m \<noteq> None \<Longrightarrow> t1 m \<noteq> None"
    unfolding eq by (cases "t n") auto
qed

lemma CreateBucket_total:
  "CreateBucketErr env n t = None \<Longrightarrow> \<exists>t1. CreateBucketIfNotExists env n t = Inr t1"
  by (simp add: CreateBucketIfNotExists_def split: option.splits)

lemma entries_begin_tx: "entries (begin_tx st) n k = map_option Const (entries st n k)"
  by (cases "st n") (simp_all add: entries_def begin_tx_def)

lemma entries_commit_tx: "entries (commit_tx h t) n k = map_option (resolve h) (entries t n k)"
  by (cases "t n") (simp_all add: entries_def commit_tx_def)

lemma begin_tx_bucket: "(begin_tx st n = None) = (st n = None)"
  by (simp add: begin_tx_def)

text \<open>
  The entries that a transaction commits: the entries of the file with the puts of the
  transaction applied, each value read from the final memory.
\<close>

lemma commit_apply:
  assumes "entries t = apply_mutations P (entries (begin_tx st))"
  shows "entries (commit_tx h t) =
         apply_mutations (map (\<lambda>m. (fst m, fst (snd m), resolve h (snd (snd m)))) P) (entries st)"
proof -
  have "entries (commit_tx h t) = (\<lambda>n k. map_option (resolve h) (apply_mutations P (entries (begin_tx st)) n k))"
    by (intro ext) (simp add: entries_commit_tx assms)
  also have "\<dots> = apply_mutations (map (\<lambda>m. (fst m, fst (snd m), resolve h (snd (snd m)))) P)
        (\<lambda>n k. map_option (resolve h) (entries (begin_tx st) n k))"
    by (rule apply_mutations_map)
  also have "(\<lambda>n k. map_option (resolve h) (entries (begin_tx st) n k)) = entries st"
    by (intro ext) (simp add: entries_begin_tx option.map_comp comp_def resolve_def option.map_ident)
  finally show ?thesis .
qed

subsection \<open>The loops of the transaction\<close>

lemma value_mutations_null: "GetIsNull env v \<Longrightarrow> value_mutations env name point (field, v) = []"
  by (simp add: value_mutations_def)

lemma value_mutations_put:
  "\<not> GetIsNull env v \<Longrightarrow> Marshal env v = Inr vb \<Longrightarrow> SequenceNumber point = Some sq \<Longrightarrow>
   value_mutations env name point (field, v) =
     [(''fields'', fieldBucketKey name field, []),
      (''data'', dataBucketKey (keyBuffer name (itou env (GetTimestamp point)) sq) field, vb)]"
  by (simp add: value_mutations_def dataBucketKey_spec fieldBucketKey_spec)

lemma proto_Marshal_Inr:
  "proto_Marshal env v hp = Inr r \<Longrightarrow> \<exists>vb. Marshal env v = Inr vb"
  by (cases "Marshal env v") (simp_all add: proto_Marshal_def)

lemma write_fields_Inr:
  assumes "write_fields env name kb vals i fs vbuf st = Inr (vbuf', st')"
    and "txn st ''data'' \<noteq> None"
    and "SequenceNumber point = Some sq"
    and "kb = keyBuffer name (itou env (GetTimestamp point)) sq"
  shows "\<exists>P. entries (txn st') = apply_mutations P (entries (txn st)) \<and>
           map mutation_key P =
             map mutation_key
               (concat (map (value_mutations env name point) (zip fs (drop i vals)))) \<and>
           txn st' ''data'' \<noteq> None \<and> (\<forall>n. txn st n \<noteq> None \<longrightarrow> txn st' n \<noteq> None)"
  using assms(1,2)
proof (induction fs arbitrary: i vbuf st)
  case Nil
  then have "st' = st" by simp
  with Nil.prems(2) show ?case
    by (intro exI [of _ "[]"]) (simp add: apply_mutations_Nil)
next
  case (Cons field rest)
  from Cons.prems(1) have lt: "i < length vals"
    by (simp split: if_splits)
  have dr: "drop i vals = vals ! i # drop (Suc i) vals"
    using lt by (simp add: Cons_nth_drop_Suc)
  show ?case
  proof (cases "GetIsNull env (vals ! i)")
    case True
    with Cons.prems(1) lt have rec: "write_fields env name kb vals (Suc i) rest vbuf st = Inr (vbuf', st')"
      by simp
    from Cons.IH [OF rec Cons.prems(2)] show ?thesis
      by (simp add: dr value_mutations_null True)
  next
    case False
    from Cons.prems(1) lt False obtain h1 vbuf1 t1 where
      mv: "proto_Marshal env (vals ! i) (mem st, proto_Reset vbuf) = Inr (h1, vbuf1)" and
      cb: "CreateBucketIfNotExists env ''fields'' (txn st) = Inr t1" and
      rec: "write_fields env name kb vals (Suc i) rest vbuf1
              \<lparr>mem = h1,
               txn = Put ''data'' (dataBucketKey kb field) (proto_Bytes vbuf1)
                       (Put ''fields'' (fieldBucketKey name field) (Const []) t1)\<rparr> = Inr (vbuf', st')"
      by (auto split: sum.splits)
    from proto_Marshal_Inr [OF mv] obtain vb where vb: "Marshal env (vals ! i) = Inr vb"
      by blast
    let ?t2 = "Put ''fields'' (fieldBucketKey name field) (Const []) t1"
    let ?t3 = "Put ''data'' (dataBucketKey kb field) (proto_Bytes vbuf1) ?t2"
    let ?st3 = "\<lparr>mem = h1, txn = ?t3\<rparr>"
    let ?here = "[(''fields'', fieldBucketKey name field, Const []),
                  (''data'', dataBucketKey kb field, proto_Bytes vbuf1)]"
    have e1: "entries t1 = entries (txn st)" and f1: "t1 ''fields'' \<noteq> None"
      and mono1: "\<And>m. txn st m \<noteq> None \<Longrightarrow> t1 m \<noteq> None"
      using CreateBucket_Inr [OF cb] by blast+
    have d2: "?t2 ''data'' \<noteq> None"
      using mono1 [OF Cons.prems(2)] by (simp add: Put_bucket_exists)
    have e3: "entries ?t3 = apply_mutations ?here (entries (txn st))"
      by (simp add: entries_Put [of ?t2 "''data''", OF d2] entries_Put [of t1 "''fields''", OF f1] e1
          apply_mutations_Cons apply_mutations_Nil)
    have d3: "txn ?st3 ''data'' \<noteq> None"
      using d2 by (simp add: Put_bucket_exists)
    have mono3: "txn st n \<noteq> None \<Longrightarrow> txn ?st3 n \<noteq> None" for n
      using mono1 [of n] by (simp add: Put_bucket_exists)
    from Cons.IH [OF rec d3] obtain P where
      P: "entries (txn st') = apply_mutations P (entries (txn ?st3))" and
      K: "map mutation_key P =
            map mutation_key
              (concat (map (value_mutations env name point) (zip rest (drop (Suc i) vals))))" and
      D: "txn st' ''data'' \<noteq> None" and
      M: "\<forall>n. txn ?st3 n \<noteq> None \<longrightarrow> txn st' n \<noteq> None"
      by blast
    have "entries (txn st') = apply_mutations P (entries ?t3)"
      using P by simp
    then have "entries (txn st') = apply_mutations (?here @ P) (entries (txn st))"
      by (simp only: e3 apply_mutations_append)
    moreover have "map mutation_key (?here @ P) =
        map mutation_key
          (concat (map (value_mutations env name point) (zip (field # rest) (drop i vals))))"
      by (simp add: dr K value_mutations_put [OF False vb assms(3)] assms(4) mutation_key_def)
    moreover have "\<forall>n. txn st n \<noteq> None \<longrightarrow> txn st' n \<noteq> None"
      using M mono3 by blast
    ultimately show ?thesis using D by blast
  qed
qed

text \<open>
  Two runs of the loop from the same memory with the same buffer do the same puts and leave
  the same memory and the same buffer, whatever the transactions hold.
\<close>

lemma write_fields_same:
  assumes "write_fields env name kb vals i fs vbuf st1 = Inr (vbuf1', st1')"
    and "write_fields env name kb vals i fs vbuf st2 = Inr (vbuf2', st2')"
    and "mem st1 = mem st2"
    and "txn st1 ''data'' \<noteq> None" and "txn st2 ''data'' \<noteq> None"
  shows "vbuf1' = vbuf2' \<and> mem st1' = mem st2' \<and>
         (\<exists>P. entries (txn st1') = apply_mutations P (entries (txn st1)) \<and>
              entries (txn st2') = apply_mutations P (entries (txn st2)))"
  using assms
proof (induction fs arbitrary: i vbuf st1 st2)
  case Nil
  then have "st1' = st1" "st2' = st2" "vbuf1' = vbuf" "vbuf2' = vbuf" by simp_all
  with Nil.prems(3) show ?case
    by (intro conjI exI [of _ "[]"]) (simp_all add: apply_mutations_Nil)
next
  case (Cons field rest)
  from Cons.prems(1) have lt: "i < length vals"
    by (simp split: if_splits)
  show ?case
  proof (cases "GetIsNull env (vals ! i)")
    case True
    with Cons.prems(1,2) lt have
      "write_fields env name kb vals (Suc i) rest vbuf st1 = Inr (vbuf1', st1')"
      "write_fields env name kb vals (Suc i) rest vbuf st2 = Inr (vbuf2', st2')"
      by simp_all
    then show ?thesis
      using Cons.prems(3,4,5) by (rule Cons.IH)
  next
    case False
    from Cons.prems(1) lt False obtain h1 vbuf1 t1 where
      mv1: "proto_Marshal env (vals ! i) (mem st1, proto_Reset vbuf) = Inr (h1, vbuf1)" and
      cb1: "CreateBucketIfNotExists env ''fields'' (txn st1) = Inr t1" and
      rec1: "write_fields env name kb vals (Suc i) rest vbuf1
              \<lparr>mem = h1,
               txn = Put ''data'' (dataBucketKey kb field) (proto_Bytes vbuf1)
                       (Put ''fields'' (fieldBucketKey name field) (Const []) t1)\<rparr> = Inr (vbuf1', st1')"
      by (auto split: sum.splits)
    from Cons.prems(2) lt False mv1 Cons.prems(3) obtain t2 where
      cb2: "CreateBucketIfNotExists env ''fields'' (txn st2) = Inr t2" and
      rec2: "write_fields env name kb vals (Suc i) rest vbuf1
              \<lparr>mem = h1,
               txn = Put ''data'' (dataBucketKey kb field) (proto_Bytes vbuf1)
                       (Put ''fields'' (fieldBucketKey name field) (Const []) t2)\<rparr> = Inr (vbuf2', st2')"
      by (auto split: sum.splits)
    let ?here = "[(''fields'', fieldBucketKey name field, Const []),
                  (''data'', dataBucketKey kb field, proto_Bytes vbuf1)]"
    let ?a = "\<lparr>mem = h1,
               txn = Put ''data'' (dataBucketKey kb field) (proto_Bytes vbuf1)
                       (Put ''fields'' (fieldBucketKey name field) (Const []) t1)\<rparr>"
    let ?b = "\<lparr>mem = h1,
               txn = Put ''data'' (dataBucketKey kb field) (proto_Bytes vbuf1)
                       (Put ''fields'' (fieldBucketKey name field) (Const []) t2)\<rparr>"
    have step: "entries (txn x) = apply_mutations ?here (entries (txn st)) \<and> txn x ''data'' \<noteq> None"
      if cb: "CreateBucketIfNotExists env ''fields'' (txn st) = Inr t"
        and d: "txn st ''data'' \<noteq> None"
        and x: "x = \<lparr>mem = h1,
               txn = Put ''data'' (dataBucketKey kb field) (proto_Bytes vbuf1)
                       (Put ''fields'' (fieldBucketKey name field) (Const []) t)\<rparr>"
      for x st t
    proof -
      have e1: "entries t = entries (txn st)" and f1: "t ''fields'' \<noteq> None"
        and mono1: "\<And>m. txn st m \<noteq> None \<Longrightarrow> t m \<noteq> None"
        using CreateBucket_Inr [OF cb] by blast+
      have d2: "Put ''fields'' (fieldBucketKey name field) (Const []) t ''data'' \<noteq> None"
        using mono1 [OF d] by (simp add: Put_bucket_exists)
      show ?thesis
        using d2
        by (simp add: x
            entries_Put [of "Put ''fields'' (fieldBucketKey name field) (Const []) t" "''data''", OF d2]
            entries_Put [of t "''fields''", OF f1] e1
            apply_mutations_Cons apply_mutations_Nil Put_bucket_exists)
    qed
    from step [OF cb1 Cons.prems(4) refl] have
      a: "entries (txn ?a) = apply_mutations ?here (entries (txn st1))" and da: "txn ?a ''data'' \<noteq> None"
      by blast+
    from step [OF cb2 Cons.prems(5) refl] have
      b: "entries (txn ?b) = apply_mutations ?here (entries (txn st2))" and db: "txn ?b ''data'' \<noteq> None"
      by blast+
    have m: "mem ?a = mem ?b" by simp
    from Cons.IH [OF rec1 rec2 m da db] obtain P where
      v: "vbuf1' = vbuf2'" and h: "mem st1' = mem st2'" and
      P1: "entries (txn st1') = apply_mutations P (entries (txn ?a))" and
      P2: "entries (txn st2') = apply_mutations P (entries (txn ?b))"
      by blast
    have "entries (txn st1') = apply_mutations (?here @ P) (entries (txn st1))"
      by (simp only: P1 a apply_mutations_append)
    moreover have "entries (txn st2') = apply_mutations (?here @ P) (entries (txn st2))"
      by (simp only: P2 b apply_mutations_append)
    ultimately show ?thesis using v h by blast
  qed
qed

lemma write_fields_encodable:
  assumes "write_fields env name kb vals i fs vbuf st = Inr r"
  shows "\<forall>j<length fs. i + j < length vals \<and>
           (GetIsNull env (vals ! (i + j)) \<or> (\<exists>vb. Marshal env (vals ! (i + j)) = Inr vb))"
  using assms
proof (induction fs arbitrary: i vbuf st)
  case Nil
  then show ?case by simp
next
  case (Cons field rest)
  from Cons.prems have lt: "i < length vals"
    by (simp split: if_splits)
  from Cons.prems lt obtain vbuf2 st2 where
    rec: "write_fields env name kb vals (Suc i) rest vbuf2 st2 = Inr r" and
    here: "GetIsNull env (vals ! i) \<or> (\<exists>vb. Marshal env (vals ! i) = Inr vb)"
    by (auto split: if_splits sum.splits dest: proto_Marshal_Inr)
  from Cons.IH [OF rec] have
    r: "\<forall>j<length rest. Suc i + j < length vals \<and>
          (GetIsNull env (vals ! (Suc i + j)) \<or> (\<exists>vb. Marshal env (vals ! (Suc i + j)) = Inr vb))"
    by blast
  have "i + j < length vals \<and>
        (GetIsNull env (vals ! (i + j)) \<or> (\<exists>vb. Marshal env (vals ! (i + j)) = Inr vb))"
    if "j < length (field # rest)" for j
  proof (cases j)
    case 0
    with here lt show ?thesis by simp
  next
    case (Suc j')
    with that r show ?thesis by simp
  qed
  then show ?case by blast
qed

lemma encodable_pointI:
  assumes "SequenceNumber point \<noteq> None"
    and "\<forall>j<length fs. j < length (Values point) \<and>
           (GetIsNull env (Values point ! j) \<or> (\<exists>vb. Marshal env (Values point ! j) = Inr vb))"
  shows "encodable_point env fs point"
proof -
  have "length fs \<le> length (Values point)"
  proof (cases fs)
    case Nil
    then show ?thesis by simp
  next
    case (Cons f rest)
    then have "length fs - 1 < length fs" by simp
    with assms(2) have "length fs - 1 < length (Values point)" by blast
    then show ?thesis by simp
  qed
  with assms show ?thesis by (simp add: encodable_point_def)
qed

lemma write_points_Inr:
  assumes "write_points env name fs points vbuf st = Inr (vbuf', st')"
    and "txn st ''data'' \<noteq> None"
  shows "\<exists>P. entries (txn st') = apply_mutations P (entries (txn st)) \<and>
           map mutation_key P =
             map mutation_key (concat (map (point_mutations env name fs) points)) \<and>
           txn st' ''data'' \<noteq> None \<and> (\<forall>n. txn st n \<noteq> None \<longrightarrow> txn st' n \<noteq> None) \<and>
           (\<forall>point\<in>set points. encodable_point env fs point)"
  using assms
proof (induction points arbitrary: vbuf st)
  case Nil
  then have "st' = st" by simp
  with Nil.prems(2) show ?case
    by (intro exI [of _ "[]"]) (simp add: apply_mutations_Nil)
next
  case (Cons point rest)
  from Cons.prems(1) obtain sq vbuf1 st1 where
    sq: "SequenceNumber point = Some sq" and
    wf: "write_fields env name (keyBuffer name (itou env (GetTimestamp point)) sq)
           (Values point) 0 fs vbuf st = Inr (vbuf1, st1)" and
    rec: "write_points env name fs rest vbuf1 st1 = Inr (vbuf', st')"
    by (auto split: option.splits sum.splits)
  from write_fields_Inr [OF wf Cons.prems(2) sq refl] obtain P1 where
    e1: "entries (txn st1) = apply_mutations P1 (entries (txn st))" and
    k1: "map mutation_key P1 = map mutation_key (point_mutations env name fs point)" and
    d1: "txn st1 ''data'' \<noteq> None" and
    mono1: "\<forall>n. txn st n \<noteq> None \<longrightarrow> txn st1 n \<noteq> None"
    by (auto simp: point_mutations_def)
  from write_fields_encodable [OF wf] sq have enc: "encodable_point env fs point"
    by (intro encodable_pointI) simp_all
  from Cons.IH [OF rec d1] obtain P where
    e: "entries (txn st') = apply_mutations P (entries (txn st1))" and
    k: "map mutation_key P = map mutation_key (concat (map (point_mutations env name fs) rest))" and
    d: "txn st' ''data'' \<noteq> None" and
    mono: "\<forall>n. txn st1 n \<noteq> None \<longrightarrow> txn st' n \<noteq> None" and
    encs: "\<forall>point\<in>set rest. encodable_point env fs point"
    by blast
  have "entries (txn st') = apply_mutations (P1 @ P) (entries (txn st))"
    by (simp only: e e1 apply_mutations_append)
  moreover have "map mutation_key (P1 @ P) =
      map mutation_key (concat (map (point_mutations env name fs) (point # rest)))"
    by (simp add: k1 k)
  moreover have "\<forall>n. txn st n \<noteq> None \<longrightarrow> txn st' n \<noteq> None"
    using mono mono1 by blast
  moreover have "\<forall>p\<in>set (point # rest). encodable_point env fs p"
    using enc encs by simp
  ultimately show ?case using d by blast
qed

lemma write_points_same:
  assumes "write_points env name fs points vbuf st1 = Inr (vbuf1', st1')"
    and "write_points env name fs points vbuf st2 = Inr (vbuf2', st2')"
    and "mem st1 = mem st2"
    and "txn st1 ''data'' \<noteq> None" and "txn st2 ''data'' \<noteq> None"
  shows "vbuf1' = vbuf2' \<and> mem st1' = mem st2' \<and>
         (\<exists>P. entries (txn st1') = apply_mutations P (entries (txn st1)) \<and>
              entries (txn st2') = apply_mutations P (entries (txn st2)))"
  using assms
proof (induction points arbitrary: vbuf st1 st2)
  case Nil
  then have "st1' = st1" "st2' = st2" "vbuf1' = vbuf" "vbuf2' = vbuf" by simp_all
  with Nil.prems(3) show ?case
    by (intro conjI exI [of _ "[]"]) (simp_all add: apply_mutations_Nil)
next
  case (Cons point rest)
  from Cons.prems(1) obtain sq va a where
    sq: "SequenceNumber point = Some sq" and
    wa: "write_fields env name (keyBuffer name (itou env (GetTimestamp point)) sq)
           (Values point) 0 fs vbuf st1 = Inr (va, a)" and
    ra: "write_points env name fs rest va a = Inr (vbuf1', st1')"
    by (auto split: option.splits sum.splits)
  from Cons.prems(2) sq obtain vb b where
    wb: "write_fields env name (keyBuffer name (itou env (GetTimestamp point)) sq)
           (Values point) 0 fs vbuf st2 = Inr (vb, b)" and
    rb: "write_points env name fs rest vb b = Inr (vbuf2', st2')"
    by (auto split: option.splits sum.splits)
  from write_fields_same [OF wa wb Cons.prems(3,4,5)] obtain P1 where
    v: "va = vb" and h: "mem a = mem b" and
    a: "entries (txn a) = apply_mutations P1 (entries (txn st1))" and
    b: "entries (txn b) = apply_mutations P1 (entries (txn st2))"
    by blast
  from write_fields_Inr [OF wa Cons.prems(4) sq refl] have da: "txn a ''data'' \<noteq> None"
    by blast
  from write_fields_Inr [OF wb Cons.prems(5) sq refl] have db: "txn b ''data'' \<noteq> None"
    by blast
  from Cons.IH [OF ra rb [folded v] h da db] obtain P where
    v': "vbuf1' = vbuf2'" and h': "mem st1' = mem st2'" and
    P1: "entries (txn st1') = apply_mutations P (entries (txn a))" and
    P2: "entries (txn st2') = apply_mutations P (entries (txn b))"
    by blast
  have "entries (txn st1') = apply_mutations (P1 @ P) (entries (txn st1))"
    by (simp only: P1 a apply_mutations_append)
  moreover have "entries (txn st2') = apply_mutations (P1 @ P) (entries (txn st2))"
    by (simp only: P2 b apply_mutations_append)
  ultimately show ?case using v' h' by blast
qed

lemma series_step:
  assumes "CreateBucketIfNotExists env ''series'' (txn st) = Inr t1"
    and "CreateBucketIfNotExists env ''data'' (Put ''series'' k (Const []) t1) = Inr t2"
  shows "entries t2 = apply_mutations [(''series'', k, Const [])] (entries (txn st))"
    and "t2 ''data'' \<noteq> None" and "txn st n \<noteq> None \<Longrightarrow> t2 n \<noteq> None"
proof -
  let ?p = "Put ''series'' k (Const []) t1"
  have e1: "entries t1 = entries (txn st)" and s1: "t1 ''series'' \<noteq> None"
    and mono1: "\<And>m. txn st m \<noteq> None \<Longrightarrow> t1 m \<noteq> None"
    using CreateBucket_Inr [OF assms(1)] by blast+
  have e2: "entries t2 = entries ?p" and d2: "t2 ''data'' \<noteq> None"
    and mono2: "\<And>m. ?p m \<noteq> None \<Longrightarrow> t2 m \<noteq> None"
    using CreateBucket_Inr [OF assms(2)] by blast+
  show "entries t2 = apply_mutations [(''series'', k, Const [])] (entries (txn st))"
    by (simp add: e2 entries_Put [of t1 "''series''", OF s1] e1 apply_mutations_Cons
        apply_mutations_Nil)
  show "t2 ''data'' \<noteq> None" by (rule d2)
  show "txn st n \<noteq> None \<Longrightarrow> t2 n \<noteq> None"
    using mono1 [of n] mono2 [of n] by (simp add: Put_bucket_exists)
qed

lemma write_series_Inr:
  assumes "write_series env series st = Inr st'"
  shows "\<exists>P. entries (txn st') = apply_mutations P (entries (txn st)) \<and>
           map mutation_key P = map mutation_key (batch_mutations env series) \<and>
           (\<forall>n. txn st n \<noteq> None \<longrightarrow> txn st' n \<noteq> None) \<and> encodable env series"
  using assms
proof (induction series arbitrary: st)
  case Nil
  then have "st' = st" by simp
  then show ?case
    by (intro exI [of _ "[]"]) (simp add: apply_mutations_Nil batch_mutations_def encodable_def)
next
  case (Cons serie rest)
  show ?case
  proof (cases "GetName serie = []")
    case True
    with Cons.prems have rec: "write_series env rest st = Inr st'" by simp
    from Cons.IH [OF rec] True show ?thesis
      by (simp add: batch_mutations_def series_mutations_def encodable_def)
  next
    case False
    from Cons.prems False obtain t1 t2 vbuf st3 where
      c1: "CreateBucketIfNotExists env ''series'' (txn st) = Inr t1" and
      c2: "CreateBucketIfNotExists env ''data''
             (Put ''series'' (bytes_of (GetName serie)) (Const []) t1) = Inr t2" and
      wp: "write_points env (GetName serie) (Fields serie) (GetPoints serie) NewBuffer
             (st\<lparr>txn := t2\<rparr>) = Inr (vbuf, st3)" and
      rec: "write_series env rest st3 = Inr st'"
      by (auto split: sum.splits)
    let ?s = "[(''series'', bytes_of (GetName serie), Const [])]"
    have e2: "entries t2 = apply_mutations ?s (entries (txn st))"
      and d2: "txn (st\<lparr>txn := t2\<rparr>) ''data'' \<noteq> None"
      and mono2: "\<And>n. txn st n \<noteq> None \<Longrightarrow> t2 n \<noteq> None"
      using series_step [OF c1 c2] by simp_all
    from write_points_Inr [OF wp d2] obtain P1 where
      e3: "entries (txn st3) = apply_mutations P1 (entries t2)" and
      k3: "map mutation_key P1 =
             map mutation_key
               (concat (map (point_mutations env (GetName serie) (Fields serie)) (GetPoints serie)))" and
      mono3: "\<forall>n. t2 n \<noteq> None \<longrightarrow> txn st3 n \<noteq> None" and
      enc: "\<forall>point\<in>set (GetPoints serie). encodable_point env (Fields serie) point"
      by auto
    from Cons.IH [OF rec] obtain P where
      e: "entries (txn st') = apply_mutations P (entries (txn st3))" and
      k: "map mutation_key P = map mutation_key (batch_mutations env rest)" and
      mono: "\<forall>n. txn st3 n \<noteq> None \<longrightarrow> txn st' n \<noteq> None" and
      encs: "encodable env rest"
      by blast
    have "entries (txn st') = apply_mutations ((?s @ P1) @ P) (entries (txn st))"
      by (simp only: e e3 e2 apply_mutations_append)
    moreover have "map mutation_key ((?s @ P1) @ P) =
        map mutation_key (batch_mutations env (serie # rest))"
      by (simp add: k k3 batch_mutations_def series_mutations_def False mutation_key_def)
    moreover have "\<forall>n. txn st n \<noteq> None \<longrightarrow> txn st' n \<noteq> None"
      using mono mono3 mono2 by blast
    moreover have "encodable env (serie # rest)"
      using enc encs by (simp add: encodable_def)
    ultimately show ?thesis by blast
  qed
qed

lemma write_series_same:
  assumes "write_series env series st1 = Inr st1'"
    and "write_series env series st2 = Inr st2'"
    and "mem st1 = mem st2"
  shows "mem st1' = mem st2' \<and>
         (\<exists>P. entries (txn st1') = apply_mutations P (entries (txn st1)) \<and>
              entries (txn st2') = apply_mutations P (entries (txn st2)))"
  using assms
proof (induction series arbitrary: st1 st2)
  case Nil
  then have "st1' = st1" "st2' = st2" by simp_all
  with Nil.prems(3) show ?case
    by (intro conjI exI [of _ "[]"]) (simp_all add: apply_mutations_Nil)
next
  case (Cons serie rest)
  show ?case
  proof (cases "GetName serie = []")
    case True
    with Cons.prems have "write_series env rest st1 = Inr st1'" "write_series env rest st2 = Inr st2'"
      by simp_all
    then show ?thesis using Cons.prems(3) by (rule Cons.IH)
  next
    case False
    from Cons.prems(1) False obtain a1 a2 va a3 where
      ca1: "CreateBucketIfNotExists env ''series'' (txn st1) = Inr a1" and
      ca2: "CreateBucketIfNotExists env ''data''
             (Put ''series'' (bytes_of (GetName serie)) (Const []) a1) = Inr a2" and
      wa: "write_points env (GetName serie) (Fields serie) (GetPoints serie) NewBuffer
             (st1\<lparr>txn := a2\<rparr>) = Inr (va, a3)" and
      ra: "write_series env rest a3 = Inr st1'"
      by (auto split: sum.splits)
    from Cons.prems(2) False obtain b1 b2 vb b3 where
      cb1: "CreateBucketIfNotExists env ''series'' (txn st2) = Inr b1" and
      cb2: "CreateBucketIfNotExists env ''data''
             (Put ''series'' (bytes_of (GetName serie)) (Const []) b1) = Inr b2" and
      wb: "write_points env (GetName serie) (Fields serie) (GetPoints serie) NewBuffer
             (st2\<lparr>txn := b2\<rparr>) = Inr (vb, b3)" and
      rb: "write_series env rest b3 = Inr st2'"
      by (auto split: sum.splits)
    let ?s = "[(''series'', bytes_of (GetName serie), Const [])]"
    have ea: "entries a2 = apply_mutations ?s (entries (txn st1))"
      and da: "txn (st1\<lparr>txn := a2\<rparr>) ''data'' \<noteq> None"
      using series_step [OF ca1 ca2] by simp_all
    have eb: "entries b2 = apply_mutations ?s (entries (txn st2))"
      and db: "txn (st2\<lparr>txn := b2\<rparr>) ''data'' \<noteq> None"
      using series_step [OF cb1 cb2] by simp_all
    have m: "mem (st1\<lparr>txn := a2\<rparr>) = mem (st2\<lparr>txn := b2\<rparr>)"
      using Cons.prems(3) by simp
    from write_points_same [OF wa wb m da db] obtain P1 where
      h3: "mem a3 = mem b3" and
      a3: "entries (txn a3) = apply_mutations P1 (entries a2)" and
      b3: "entries (txn b3) = apply_mutations P1 (entries b2)"
      by auto
    from Cons.IH [OF ra rb h3] obtain P where
      h: "mem st1' = mem st2'" and
      a: "entries (txn st1') = apply_mutations P (entries (txn a3))" and
      b: "entries (txn st2') = apply_mutations P (entries (txn b3))"
      by blast
    have "entries (txn st1') = apply_mutations ((?s @ P1) @ P) (entries (txn st1))"
      by (simp only: a a3 ea apply_mutations_append)
    moreover have "entries (txn st2') = apply_mutations ((?s @ P1) @ P) (entries (txn st2))"
      by (simp only: b b3 eb apply_mutations_append)
    ultimately show ?thesis using h by blast
  qed
qed

subsection \<open>What a transaction commits\<close>

lemma transaction_commit:
  assumes "transaction env series (begin_tx c) = Inr st"
  shows "\<exists>M. entries (commit_tx (mem st) (txn st)) = apply_mutations M (entries c) \<and>
           map mutation_key M = map mutation_key (batch_mutations env series) \<and>
           encodable env series"
proof -
  from write_series_Inr [OF assms [unfolded transaction_def]] obtain P where
    e: "entries (txn st) = apply_mutations P (entries (begin_tx c))" and
    k: "map mutation_key P = map mutation_key (batch_mutations env series)" and
    enc: "encodable env series"
    by auto
  from commit_apply [OF e, of "mem st"] k enc show ?thesis
    by (auto simp only: keys_map_values)
qed

lemma transaction_twice:
  assumes "transaction env series (begin_tx c1) = Inr st1"
    and "transaction env series (begin_tx c2) = Inr st2"
  shows "\<exists>M. entries (commit_tx (mem st1) (txn st1)) = apply_mutations M (entries c1) \<and>
             entries (commit_tx (mem st2) (txn st2)) = apply_mutations M (entries c2)"
proof -
  have m: "mem \<lparr>mem = [], txn = begin_tx c1\<rparr> = mem \<lparr>mem = [], txn = begin_tx c2\<rparr>"
    by simp
  from write_series_same [OF assms [unfolded transaction_def] m] obtain P where
    h: "mem st1 = mem st2" and
    e1: "entries (txn st1) = apply_mutations P (entries (begin_tx c1))" and
    e2: "entries (txn st2) = apply_mutations P (entries (begin_tx c2))"
    by auto
  from commit_apply [OF e1, of "mem st1"] commit_apply [OF e2, of "mem st2"] h
  show ?thesis by auto
qed

subsection \<open>The mutations of a batch, one by one\<close>

lemma in_value_mutations:
  "m \<in> set (value_mutations env name point (field, v)) \<longleftrightarrow>
     \<not> GetIsNull env v \<and>
     (\<exists>vb sq. Marshal env v = Inr vb \<and> SequenceNumber point = Some sq \<and>
        (m = (''fields'', spec_fields_key name field, []) \<or>
         m = (''data'', spec_data_key name (itou env (GetTimestamp point)) sq field, vb)))"
  by (cases "Marshal env v"; cases "SequenceNumber point") (auto simp: value_mutations_def)

lemma in_point_mutations:
  "m \<in> set (point_mutations env name fs point) \<longleftrightarrow>
     (\<exists>i. i < length fs \<and> i < length (Values point) \<and>
        m \<in> set (value_mutations env name point (fs ! i, Values point ! i)))"
proof
  assume "m \<in> set (point_mutations env name fs point)"
  then obtain fv where fv: "fv \<in> set (zip fs (Values point))"
    and m: "m \<in> set (value_mutations env name point fv)"
    by (auto simp: point_mutations_def)
  from fv obtain i where "fs ! i = fst fv" "Values point ! i = snd fv"
    "i < length fs" "i < length (Values point)"
    by (auto simp: in_set_zip)
  with m show "\<exists>i. i < length fs \<and> i < length (Values point) \<and>
        m \<in> set (value_mutations env name point (fs ! i, Values point ! i))"
    by auto
next
  assume "\<exists>i. i < length fs \<and> i < length (Values point) \<and>
        m \<in> set (value_mutations env name point (fs ! i, Values point ! i))"
  then obtain i where i: "i < length fs" "i < length (Values point)"
    and m: "m \<in> set (value_mutations env name point (fs ! i, Values point ! i))"
    by blast
  from i have "(fs ! i, Values point ! i) \<in> set (zip fs (Values point))"
    by (auto simp: in_set_zip)
  with m show "m \<in> set (point_mutations env name fs point)"
    unfolding point_mutations_def by (simp only: set_concat set_map) blast
qed

lemma in_series_mutations:
  "m \<in> set (series_mutations env serie) \<longleftrightarrow>
     GetName serie \<noteq> [] \<and>
     (m = (''series'', bytes_of (GetName serie), []) \<or>
      (\<exists>point\<in>set (GetPoints serie).
         m \<in> set (point_mutations env (GetName serie) (Fields serie) point)))"
  by (auto simp: series_mutations_def)

lemma in_batch_mutations:
  "m \<in> set (batch_mutations env series) \<longleftrightarrow>
     (\<exists>serie\<in>set series. m \<in> set (series_mutations env serie))"
  by (auto simp: batch_mutations_def)

lemma series_key_in_batch:
  "(\<exists>v. (''series'', k, v) \<in> set (batch_mutations env series)) \<longleftrightarrow>
     (\<exists>serie\<in>set series. GetName serie \<noteq> [] \<and> k = bytes_of (GetName serie))"
  by (auto simp: in_batch_mutations in_series_mutations in_point_mutations in_value_mutations)

text \<open>The keys of \<open>fields\<close> and \<open>data\<close> that a batch sets belong to its non-null values.\<close>

lemma fields_key_in_batch:
  "(''fields'', fk, v) \<in> set (batch_mutations env series) \<Longrightarrow> \<exists>dk. carries env series fk dk"
  unfolding in_batch_mutations in_series_mutations in_point_mutations in_value_mutations
    carries_def dataBucketKey_spec fieldBucketKey_spec
  by fastforce

lemma data_key_in_batch:
  "(''data'', dk, v) \<in> set (batch_mutations env series) \<Longrightarrow> \<exists>fk. carries env series fk dk"
  unfolding in_batch_mutations in_series_mutations in_point_mutations in_value_mutations
    carries_def dataBucketKey_spec fieldBucketKey_spec
  by fastforce

lemma carries_in_batch:
  assumes "encodable env series" and "carries env series fk dk"
  shows "(''fields'', fk, []) \<in> set (batch_mutations env series) \<and>
         (\<exists>vb. (''data'', dk, vb) \<in> set (batch_mutations env series))"
proof -
  from assms(2) obtain serie point i sq where
    serie: "serie \<in> set series" "GetName serie \<noteq> []" and
    point: "point \<in> set (GetPoints serie)" and
    i: "i < length (Fields serie)" "i < length (Values point)" and
    nn: "\<not> GetIsNull env (Values point ! i)" and
    sq: "SequenceNumber point = Some sq" and
    fk: "fk = fieldBucketKey (GetName serie) (Fields serie ! i)" and
    dk: "dk = dataBucketKey (keyBuffer (GetName serie) (itou env (GetTimestamp point)) sq)
                (Fields serie ! i)"
    unfolding carries_def by blast
  from assms(1) serie point have "encodable_point env (Fields serie) point"
    by (simp add: encodable_def)
  with i nn obtain vb where vb: "Marshal env (Values point ! i) = Inr vb"
    by (auto simp: encodable_point_def)
  have a: "(''fields'', fk, []) \<in>
        set (value_mutations env (GetName serie) point (Fields serie ! i, Values point ! i))"
    and b: "(''data'', dk, vb) \<in>
        set (value_mutations env (GetName serie) point (Fields serie ! i, Values point ! i))"
    by (simp_all add: value_mutations_put [OF nn vb sq] fk dk)
  from a i point serie have
    "(''fields'', fk, []) \<in> set (batch_mutations env series)"
    unfolding in_batch_mutations in_series_mutations in_point_mutations by blast
  moreover from b i point serie have
    "(''data'', dk, vb) \<in> set (batch_mutations env series)"
    unfolding in_batch_mutations in_series_mutations in_point_mutations by blast
  ultimately show ?thesis by blast
qed

lemma carries_series_key:
  "carries env series fk dk \<Longrightarrow>
   \<exists>name ts sq field. dk = dataBucketKey (keyBuffer name ts sq) field \<and>
      fk = fieldBucketKey name field \<and>
      (''series'', bytes_of name, []) \<in> set (batch_mutations env series)"
proof -
  assume "carries env series fk dk"
  then obtain serie point i sq where
    serie: "serie \<in> set series" "GetName serie \<noteq> []" and
    point: "point \<in> set (GetPoints serie)" and
    fk: "fk = fieldBucketKey (GetName serie) (Fields serie ! i)" and
    dk: "dk = dataBucketKey (keyBuffer (GetName serie) (itou env (GetTimestamp point)) sq)
                (Fields serie ! i)"
    unfolding carries_def by blast
  from serie have "(''series'', bytes_of (GetName serie), []) \<in> set (batch_mutations env series)"
    unfolding in_batch_mutations in_series_mutations by blast
  with fk dk show ?thesis by blast
qed

subsection \<open>Write on the shard\<close>

lemma bolt_Open_Inr:
  assumes "bolt_Open os path d = Inr (db, d1)"
  shows "db = path" and "contents d1 = contents d" and "opened d1 = insert path (opened d)"
proof -
  have eq: "db = path \<and>
      d1 = d\<lparr>files := (case files d path of None \<Rightarrow> (files d)(path \<mapsto> Map.empty)
                                         | Some st \<Rightarrow> files d),
              opened := insert path (opened d)\<rparr>"
    using assms by (auto simp: bolt_Open_def split: option.splits)
  show "db = path" using eq by simp
  show "opened d1 = insert path (opened d)" using eq by simp
  show "contents d1 = contents d"
    using eq by (cases "files d path") (auto simp: contents_def fun_eq_iff)
qed

lemma Update_Some:
  "Update db fn d = (Some e, d') \<Longrightarrow> d' = d \<and> fn (begin_tx (contents d db)) = Inl e"
  by (auto simp: Update_def split: sum.splits)

lemma Update_None:
  "Update db fn d = (None, d') \<Longrightarrow>
   \<exists>st1. fn (begin_tx (contents d db)) = Inr st1 \<and>
         contents d' = (contents d)(db := commit_tx (mem st1) (txn st1)) \<and>
         opened d' = opened d"
  by (auto simp: Update_def contents_def fun_eq_iff split: sum.splits)

lemma Write_closed: "closed s \<Longrightarrow> Write os env database series (s, d) = (Some ErrShardClosed, s, d)"
  by (simp add: Write_def)

lemma Write_error:
  assumes "Write os env database series (s, d) = (Some e, s', d')"
  shows "contents d' = contents d"
proof (cases "closed s")
  case True
  with assms show ?thesis by (simp add: Write_def)
next
  case False
  show ?thesis
  proof (cases "map_of (dbs s) database")
    case (Some db)
    with assms False have "Update db (transaction env series) d = (Some e, d')"
      by (auto simp: Write_def split: prod.splits)
    from Update_Some [OF this] show ?thesis by simp
  next
    case None
    show ?thesis
    proof (cases "bolt_Open os (baseDir s @ ''/'' @ database) d")
      case (Inl err)
      with assms False None show ?thesis by (simp add: Write_def)
    next
      case (Inr r)
      obtain db d1 where r: "r = (db, d1)" by (cases r)
      from assms False None Inr r have "Update db (transaction env series) d1 = (Some e, d')"
        by (auto simp: Write_def split: prod.splits)
      from Update_Some [OF this] bolt_Open_Inr(2) [OF Inr [unfolded r]] show ?thesis by simp
    qed
  qed
qed

lemma Write_commit:
  assumes "Write os env database series (s, d) = (None, s', d')"
  shows "\<exists>db st1. map_of (dbs s') database = Some db \<and>
           (map_of (dbs s) database = Some db \<and> s' = s \<or>
            map_of (dbs s) database = None \<and> db = baseDir s @ ''/'' @ database \<and>
              OpenErr os db d = None \<and>
              s' = s\<lparr>dbs := AList.update database db (dbs s)\<rparr>) \<and>
           transaction env series (begin_tx (contents d db)) = Inr st1 \<and>
           contents d' = (contents d)(db := commit_tx (mem st1) (txn st1)) \<and> \<not> closed s"
proof -
  from assms have nc: "\<not> closed s"
    by (auto simp: Write_def)
  show ?thesis
  proof (cases "map_of (dbs s) database")
    case (Some db)
    with assms nc have u: "Update db (transaction env series) d = (None, d')" and s: "s' = s"
      by (auto simp: Write_def split: prod.splits)
    from Update_None [OF u] Some s nc show ?thesis by auto
  next
    case None
    from assms nc None obtain db d1 where
      op: "bolt_Open os (baseDir s @ ''/'' @ database) d = Inr (db, d1)"
      by (cases "bolt_Open os (baseDir s @ ''/'' @ database) d") (auto simp: Write_def)
    from assms nc None op have
      u: "Update db (transaction env series) d1 = (None, d')" and
      s: "s' = s\<lparr>dbs := AList.update database db (dbs s)\<rparr>"
      by (auto simp: Write_def split: prod.splits)
    have oe: "OpenErr os (baseDir s @ ''/'' @ database) d = None"
      using op by (auto simp: bolt_Open_def split: option.splits)
    have m: "map_of (dbs s') database = Some db"
      by (simp add: s update_conv')
    from Update_None [OF u] bolt_Open_Inr(1,2) [OF op] None s nc m oe show ?thesis by auto
  qed
qed

lemma Write_commit_entries:
  assumes "Write os env database series (s, d) = (None, s', d')"
  shows "\<exists>db M. map_of (dbs s') database = Some db \<and>
           (map_of (dbs s) database = Some db \<and> s' = s \<or>
            map_of (dbs s) database = None \<and> db = baseDir s @ ''/'' @ database) \<and>
           entries (contents d' db) = apply_mutations M (entries (contents d db)) \<and>
           map mutation_key M = map mutation_key (batch_mutations env series) \<and>
           (\<forall>path. path \<noteq> db \<longrightarrow> contents d' path = contents d path) \<and>
           encodable env series"
proof -
  from Write_commit [OF assms] obtain db st1 where
    m: "map_of (dbs s') database = Some db" and
    c: "map_of (dbs s) database = Some db \<and> s' = s \<or>
        map_of (dbs s) database = None \<and> db = baseDir s @ ''/'' @ database" and
    w: "transaction env series (begin_tx (contents d db)) = Inr st1" and
    d': "contents d' = (contents d)(db := commit_tx (mem st1) (txn st1))"
    by blast
  from transaction_commit [OF w] obtain M where
    e: "entries (commit_tx (mem st1) (txn st1)) = apply_mutations M (entries (contents d db))" and
    k: "map mutation_key M = map mutation_key (batch_mutations env series)" and
    enc: "encodable env series"
    by blast
  have "entries (contents d' db) = apply_mutations M (entries (contents d db))"
    using e d' by simp
  moreover have "\<forall>path. path \<noteq> db \<longrightarrow> contents d' path = contents d path"
    using d' by simp
  ultimately show ?thesis using m c k enc by blast
qed

subsection \<open>The example batches, evaluated\<close>

lemmas ex_defs =
  ex_env_def ex_os_def ex_os_fail_def ex_handlers_def ex_disk_def ex_point_def ex_serie_def
  ex_unnamed_def ex_bad_serie_def ex_null_serie_def ex_empty_serie_def ex_two_serie_def
  ex_query_def ex_start_def

lemmas shard_defs =
  Write_def NewBoltShard_def bolt_Open_def Update_def contents_def Close_def os_Remove_def
  DropDatabase_def close_def IsClosed_def Query_def dispatch_def

lemmas tx_defs =
  GetName_def GetPoints_def GetTimestamp_def CreateBucketIfNotExists_def Put_def
  transaction_def begin_tx_def commit_tx_def resolve_def array_at_def proto_Marshal_def
  append_byte_def proto_Reset_def proto_Bytes_def NewBuffer_def

lemma ex_failed_result:
  "Write ex_os ex_env ''db'' [ex_serie, ex_bad_serie] ex_start =
     (Some (ErrExternal ''marshal''), ex_failed)"
proof -
  have "fst (Write ex_os ex_env ''db'' [ex_serie, ex_bad_serie] ex_start) =
        Some (ErrExternal ''marshal'')"
    by (simp add: ex_defs shard_defs tx_defs)
  then show ?thesis
    by (simp add: ex_failed_def prod_eq_iff)
qed

lemma ex_written_result: "Write ex_os ex_env ''db'' [ex_serie] ex_start = (None, ex_written)"
proof -
  have "fst (Write ex_os ex_env ''db'' [ex_serie] ex_start) = None"
    by (simp add: ex_defs shard_defs tx_defs)
  then show ?thesis
    by (simp add: ex_written_def prod_eq_iff)
qed

lemma ex_written_dbs: "dbs (fst ex_written) = [(''db'', ''dir/db'')]"
  by (simp add: ex_written_def ex_defs shard_defs tx_defs)

lemma ex_rewritten_result: "Write ex_os ex_env ''db'' [ex_serie] ex_written = (None, ex_rewritten)"
proof -
  have "fst (Write ex_os ex_env ''db'' [ex_serie] ex_written) = None"
    by (simp add: ex_written_def ex_defs shard_defs tx_defs)
  then show ?thesis
    by (simp add: ex_rewritten_def prod_eq_iff)
qed

lemma ex_key: "spec_data_key ''s'' (itou ex_env 1) 2 ''a'' =
  [115, 0, 128, 0, 0, 0, 0, 0, 0, 1, 0, 0, 0, 0, 0, 0, 0, 2, 97]"
  by (simp add: spec_data_key_def be_bytes_8 bytes_of_def ex_env_def)

subsection \<open>The values of a batch\<close>

lemma ex_key_b: "spec_data_key ''s'' (itou ex_env 1) 2 ''b'' =
  [115, 0, 128, 0, 0, 0, 0, 0, 0, 1, 0, 0, 0, 0, 0, 0, 0, 2, 98]"
  by (simp add: spec_data_key_def be_bytes_8 bytes_of_def ex_env_def)

lemma replicate_7: "replicate 7 (0::byte) = [0, 0, 0, 0, 0, 0, 0]"
  by (simp add: eval_nat_numeral)

text \<open>
  C1. \<^verbatim>\<open>Write\<close> does not apply every mutation of a batch that it commits. A batch of one
  series \<open>s\<close> with the fields \<open>a\<close> and \<open>b\<close> and one point whose values are 7 and 9 is
  written to a new shard, with no failure of the store. \<^verbatim>\<open>Write\<close> returns nil. The
  mutations of the batch set the \<open>data\<close> entry of field \<open>a\<close> to the encoding of 7 and the
  entry of field \<open>b\<close> to the encoding of 9. The committed \<open>data\<close> bucket holds the encoding
  of 9 under both keys: the value buffer is allocated once for the series (line 152),
  \<^verbatim>\<open>Put\<close> is given the slice \<^verbatim>\<open>valueBuffer.Bytes()\<close> (line 185), and the next
  \<^verbatim>\<open>Reset\<close> and \<^verbatim>\<open>Marshal\<close> (lines 170 and 171) write the encoding of the second
  value into the same backing array before the transaction commits.
\<close>

theorem C1_shared_value_buffer:
  "fst (Write ex_os ex_env ''db'' [ex_two_serie] ex_start) = None \<and>
   apply_mutations (batch_mutations ex_env [ex_two_serie])
       (entries (contents (snd ex_start) ''dir/db'')) ''data'' =
     [[115, 0, 128, 0, 0, 0, 0, 0, 0, 1, 0, 0, 0, 0, 0, 0, 0, 2, 97] \<mapsto> [40, 7],
      [115, 0, 128, 0, 0, 0, 0, 0, 0, 1, 0, 0, 0, 0, 0, 0, 0, 2, 98] \<mapsto> [40, 9]] \<and>
   entries (contents (snd ex_two) ''dir/db'') ''data'' =
     [[115, 0, 128, 0, 0, 0, 0, 0, 0, 1, 0, 0, 0, 0, 0, 0, 0, 2, 97] \<mapsto> [40, 9],
      [115, 0, 128, 0, 0, 0, 0, 0, 0, 1, 0, 0, 0, 0, 0, 0, 0, 2, 98] \<mapsto> [40, 9]]"
proof (intro conjI)
  show "fst (Write ex_os ex_env ''db'' [ex_two_serie] ex_start) = None"
    by (simp add: ex_defs shard_defs tx_defs)
  show "apply_mutations (batch_mutations ex_env [ex_two_serie])
          (entries (contents (snd ex_start) ''dir/db'')) ''data'' =
        [[115, 0, 128, 0, 0, 0, 0, 0, 0, 1, 0, 0, 0, 0, 0, 0, 0, 2, 97] \<mapsto> [40, 7],
         [115, 0, 128, 0, 0, 0, 0, 0, 0, 1, 0, 0, 0, 0, 0, 0, 0, 2, 98] \<mapsto> [40, 9]]"
    unfolding ex_key [symmetric] ex_key_b [symmetric]
    by (simp add: ex_defs shard_defs tx_defs entries_def apply_mutations_def apply_mutation_def
        batch_mutations_def series_mutations_def point_mutations_def value_mutations_def
        fun_eq_iff)
  show "entries (contents (snd ex_two) ''dir/db'') ''data'' =
        [[115, 0, 128, 0, 0, 0, 0, 0, 0, 1, 0, 0, 0, 0, 0, 0, 0, 2, 97] \<mapsto> [40, 9],
         [115, 0, 128, 0, 0, 0, 0, 0, 0, 1, 0, 0, 0, 0, 0, 0, 0, 2, 98] \<mapsto> [40, 9]]"
    unfolding ex_key [symmetric] ex_key_b [symmetric]
    by (simp add: ex_two_def ex_defs shard_defs tx_defs entries_def dataBucketKey_spec
        replicate_7 fun_eq_iff)
qed

text \<open>
  The other half of the atomicity of a batch holds: when \<^verbatim>\<open>Write\<close> returns an error
  (also one of the transaction, after earlier series of the batch were processed), every
  bucket of every database holds the entries it held before the call.
\<close>

lemma Write_error_entries:
  assumes "Write os env database series (s, d) = (Some e, s', d')"
  shows "entries (contents d' path) name = entries (contents d path) name"
  using Write_error [OF assms] by simp

subsection \<open>The format of the data keys\<close>

lemma data_keys_of_batch:
  assumes "encodable env series"
  shows "{k. \<exists>v. (''data'', k, v) \<in> set (batch_mutations env series)} =
         {spec_data_key (GetName serie) (itou env (GetTimestamp point)) sq (Fields serie ! i) |
            serie point sq i.
            serie \<in> set series \<and> GetName serie \<noteq> [] \<and> point \<in> set (GetPoints serie) \<and>
            SequenceNumber point = Some sq \<and> i < length (Fields serie) \<and>
            \<not> GetIsNull env (Values point ! i)}"
  (is "?L = ?R")
proof (intro set_eqI iffI)
  fix k
  assume "k \<in> ?L"
  then obtain v where "(''data'', k, v) \<in> set (batch_mutations env series)" by blast
  from data_key_in_batch [OF this] obtain fk where "carries env series fk k" by blast
  then show "k \<in> ?R"
    unfolding carries_def dataBucketKey_spec by blast
next
  fix k
  assume "k \<in> ?R"
  then obtain serie point sq i where
    serie: "serie \<in> set series" "GetName serie \<noteq> []" and
    point: "point \<in> set (GetPoints serie)" and
    sq: "SequenceNumber point = Some sq" and
    i: "i < length (Fields serie)" and
    nn: "\<not> GetIsNull env (Values point ! i)" and
    k: "k = spec_data_key (GetName serie) (itou env (GetTimestamp point)) sq (Fields serie ! i)"
    by blast
  from assms serie point have "encodable_point env (Fields serie) point"
    by (simp add: encodable_def)
  with i have iv: "i < length (Values point)" by (simp add: encodable_point_def)
  have "carries env series (fieldBucketKey (GetName serie) (Fields serie ! i)) k"
    unfolding carries_def k dataBucketKey_spec using serie point sq i iv nn by blast
  from carries_in_batch [OF assms this] show "k \<in> ?L" by blast
qed

text \<open>
  C3. The keys that a committed \<^verbatim>\<open>Write\<close> adds to the \<open>data\<close> bucket are exactly the keys
  of the format of the specification, one for every non-null value of the batch: the bytes
  of the series name, one zero byte, the 8-byte big-endian unsigned timestamp, the 8-byte
  big-endian sequence number, the bytes of the field name.
\<close>

theorem C3_data_key_format:
  assumes "Write os env database series (s, d) = (None, s', d')"
  shows "\<exists>db. map_of (dbs s') database = Some db \<and>
           dom (entries (contents d' db) ''data'') =
             dom (entries (contents d db) ''data'') \<union>
             {spec_data_key (GetName serie) (itou env (GetTimestamp point)) sq (Fields serie ! i) |
                serie point sq i.
                serie \<in> set series \<and> GetName serie \<noteq> [] \<and> point \<in> set (GetPoints serie) \<and>
                SequenceNumber point = Some sq \<and> i < length (Fields serie) \<and>
                \<not> GetIsNull env (Values point ! i)}"
proof -
  from Write_commit_entries [OF assms] obtain db M where
    m: "map_of (dbs s') database = Some db" and
    e: "entries (contents d' db) = apply_mutations M (entries (contents d db))" and
    k: "map mutation_key M = map mutation_key (batch_mutations env series)" and
    enc: "encodable env series"
    by blast
  have "dom (entries (contents d' db) ''data'') =
        dom (entries (contents d db) ''data'') \<union> {k. \<exists>v. (''data'', k, v) \<in> set M}"
    by (simp only: e dom_apply_mutations)
  then have "dom (entries (contents d' db) ''data'') =
        dom (entries (contents d db) ''data'') \<union>
        {k. \<exists>v. (''data'', k, v) \<in> set (batch_mutations env series)}"
    by (simp only: same_keys [OF k])
  with m show ?thesis
    by (simp only: data_keys_of_batch [OF enc]) blast
qed

theorem C3_data_key_format_witness:
  "[115, 0, 128, 0, 0, 0, 0, 0, 0, 1, 0, 0, 0, 0, 0, 0, 0, 2, 97]
     \<in> dom (entries (contents (snd ex_written) ''dir/db'') ''data'')"
proof -
  obtain s0 d0 where st: "ex_start = (s0, d0)" by (cases ex_start)
  obtain s2 d2 where w: "ex_written = (s2, d2)" by (cases ex_written)
  have m: "map_of (dbs s2) ''db'' = Some ''dir/db''"
    using ex_written_dbs by (simp add: w)
  have "ex_serie \<in> set [ex_serie] \<and> GetName ex_serie \<noteq> [] \<and>
        ex_point \<in> set (GetPoints ex_serie) \<and> SequenceNumber ex_point = Some 2 \<and>
        0 < length (Fields ex_serie) \<and> \<not> GetIsNull ex_env (Values ex_point ! 0) \<and>
        spec_data_key ''s'' (itou ex_env 1) 2 ''a'' =
          spec_data_key (GetName ex_serie) (itou ex_env (GetTimestamp ex_point)) 2
            (Fields ex_serie ! 0)"
    by (simp add: ex_defs tx_defs)
  then have "spec_data_key ''s'' (itou ex_env 1) 2 ''a'' \<in>
      {spec_data_key (GetName serie) (itou ex_env (GetTimestamp point)) sq (Fields serie ! i) |
         serie point sq i.
         serie \<in> set [ex_serie] \<and> GetName serie \<noteq> [] \<and> point \<in> set (GetPoints serie) \<and>
         SequenceNumber point = Some sq \<and> i < length (Fields serie) \<and>
         \<not> GetIsNull ex_env (Values point ! i)}"
    by blast
  with C3_data_key_format [OF ex_written_result [unfolded w st]] m
  have "spec_data_key ''s'' (itou ex_env 1) 2 ''a'' \<in> dom (entries (contents d2 ''dir/db'') ''data'')"
    by auto
  then show ?thesis by (simp add: ex_key w)
qed

subsection \<open>Writing a batch again\<close>

text \<open>
  C5. \<^verbatim>\<open>Write\<close> is idempotent: when the same batch is written twice to the same database
  and both calls return nil, the second call leaves the shard and the entries of every
  bucket (\<open>series\<close>, \<open>fields\<close>, \<open>data\<close>) of every database as the first call left them.
\<close>

theorem C5_idempotent_write:
  assumes "Write os env database series (s, d) = (None, s1, d1)"
    and "Write os env database series (s1, d1) = (None, s2, d2)"
  shows "s2 = s1 \<and>
         (\<forall>path name. entries (contents d2 path) name = entries (contents d1 path) name)"
proof -
  from Write_commit [OF assms(1)] obtain db st1 where
    m1: "map_of (dbs s1) database = Some db" and
    t1: "transaction env series (begin_tx (contents d db)) = Inr st1" and
    c1: "contents d1 = (contents d)(db := commit_tx (mem st1) (txn st1))"
    by blast
  from Write_commit [OF assms(2)] m1 obtain st2 where
    s: "s2 = s1" and
    t2: "transaction env series (begin_tx (contents d1 db)) = Inr st2" and
    c2: "contents d2 = (contents d1)(db := commit_tx (mem st2) (txn st2))"
    by auto
  from transaction_twice [OF t1 t2] obtain M where
    e1: "entries (commit_tx (mem st1) (txn st1)) = apply_mutations M (entries (contents d db))" and
    e2: "entries (commit_tx (mem st2) (txn st2)) = apply_mutations M (entries (contents d1 db))"
    by blast
  have d1: "entries (contents d1 db) = apply_mutations M (entries (contents d db))"
    using e1 c1 by simp
  have "entries (contents d2 db) = apply_mutations M (entries (contents d1 db))"
    using e2 c2 by simp
  then have "entries (contents d2 db) = entries (contents d1 db)"
    by (simp only: d1 apply_mutations_twice)
  moreover have "path \<noteq> db \<Longrightarrow> contents d2 path = contents d1 path" for path
    using c2 by simp
  ultimately have "entries (contents d2 path) name = entries (contents d1 path) name"
    for path name
    by (cases "path = db") simp_all
  with s show ?thesis by blast
qed

theorem C5_idempotent_write_witness:
  "fst ex_rewritten = fst ex_written \<and>
   (\<forall>path name. entries (contents (snd ex_rewritten) path) name =
                 entries (contents (snd ex_written) path) name)"
proof -
  obtain s0 d0 where st: "ex_start = (s0, d0)" by (cases ex_start)
  obtain s1 d1 where w: "ex_written = (s1, d1)" by (cases ex_written)
  obtain s2 d2 where r: "ex_rewritten = (s2, d2)" by (cases ex_rewritten)
  from C5_idempotent_write [OF ex_written_result [unfolded w st] ex_rewritten_result [unfolded r w]]
  show ?thesis by (simp add: w r)
qed

subsection \<open>Series without a name\<close>

lemma write_series_skip:
  "GetName serie = [] \<Longrightarrow>
   write_series env (before @ serie # after) st = write_series env (before @ after) st"
proof (induction before arbitrary: st)
  case Nil
  then show ?case by simp
next
  case (Cons x before)
  show ?case
  proof (cases "GetName x = []")
    case True
    with Cons show ?thesis by simp
  next
    case False
    with Cons show ?thesis by (simp split: sum.splits)
  qed
qed

text \<open>
  C9. An entry of the batch whose series name is empty contributes nothing and causes no
  error: \<^verbatim>\<open>Write\<close> returns the same result and leaves the same shard and the same
  databases as for the batch without that entry.
\<close>

theorem C9_empty_name_skipped:
  assumes "GetName serie = []"
  shows "Write os env database (before @ serie # after) sd =
         Write os env database (before @ after) sd"
proof -
  have eq: "transaction env (before @ serie # after) = transaction env (before @ after)"
    using write_series_skip [OF assms] by (intro ext) (simp add: transaction_def)
  show ?thesis unfolding Write_def eq by (rule refl)
qed

theorem C9_empty_name_skipped_witness:
  "GetName ex_unnamed = [] \<and>
   Write ex_os ex_env ''db'' [ex_serie, ex_unnamed, ex_null_serie] ex_start =
   Write ex_os ex_env ''db'' [ex_serie, ex_null_serie] ex_start"
proof -
  have n: "GetName ex_unnamed = []"
    by (simp add: GetName_def ex_unnamed_def)
  from C9_empty_name_skipped [OF n, of ex_os ex_env "''db''" "[ex_serie]" "[ex_null_serie]" ex_start] n
  show ?thesis by simp
qed

subsection \<open>Series entries without data\<close>

lemma write_fields_all_null:
  "length fs + i \<le> length vals \<Longrightarrow> \<forall>j<length fs. GetIsNull env (vals ! (i + j)) \<Longrightarrow>
   write_fields env name kb vals i fs vbuf st = Inr (vbuf, st)"
proof (induction fs arbitrary: i)
  case Nil
  then show ?case by simp
next
  case (Cons field rest)
  from Cons.prems(1) have len: "i < length vals" and l: "length rest + Suc i \<le> length vals"
    by simp_all
  from Cons.prems(2) have here: "GetIsNull env (vals ! i)"
    by (metis add.right_neutral length_greater_0_conv list.distinct(1))
  have r: "\<forall>j<length rest. GetIsNull env (vals ! (Suc i + j))"
  proof (intro allI impI)
    fix j
    assume "j < length rest"
    then have "Suc j < length (field # rest)" by simp
    with Cons.prems(2) have "GetIsNull env (vals ! (i + Suc j))" by blast
    then show "GetIsNull env (vals ! (Suc i + j))" by simp
  qed
  from Cons.IH [OF l r] len here show ?case by simp
qed

lemma write_points_all_null:
  "\<forall>point\<in>set points. SequenceNumber point \<noteq> None \<and> length fs \<le> length (Values point) \<and>
       (\<forall>i<length fs. GetIsNull env (Values point ! i)) \<Longrightarrow>
   write_points env name fs points vbuf st = Inr (vbuf, st)"
proof (induction points)
  case Nil
  then show ?case by simp
next
  case (Cons point rest)
  from Cons.prems obtain sq where sq: "SequenceNumber point = Some sq" by auto
  from Cons.prems have "length fs + 0 \<le> length (Values point)"
    and "\<forall>j<length fs. GetIsNull env (Values point ! (0 + j))"
    by simp_all
  then have "write_fields env name (keyBuffer name (itou env (GetTimestamp point)) sq)
               (Values point) 0 fs vbuf st = Inr (vbuf, st)"
    by (rule write_fields_all_null)
  with Cons sq show ?case by simp
qed

lemma write_series_all_null:
  assumes "\<forall>name tx. CreateBucketErr env name tx = None"
  shows "all_null env series \<Longrightarrow> \<exists>st'. write_series env series st = Inr st'"
proof (induction series arbitrary: st)
  case Nil
  then show ?case by simp
next
  case (Cons serie rest)
  from Cons.prems have rest: "all_null env rest" and
    here: "\<forall>point\<in>set (GetPoints serie). SequenceNumber point \<noteq> None \<and>
             length (Fields serie) \<le> length (Values point) \<and>
             (\<forall>i<length (Fields serie). GetIsNull env (Values point ! i))"
    by (simp_all add: all_null_def)
  show ?case
  proof (cases "GetName serie = []")
    case True
    with Cons.IH [OF rest] show ?thesis by simp
  next
    case False
    from assms obtain t1 where c1: "CreateBucketIfNotExists env ''series'' (txn st) = Inr t1"
      using CreateBucket_total by blast
    from assms obtain t2 where
      c2: "CreateBucketIfNotExists env ''data''
             (Put ''series'' (bytes_of (GetName serie)) (Const []) t1) = Inr t2"
      using CreateBucket_total by blast
    have wp: "write_points env (GetName serie) (Fields serie) (GetPoints serie) NewBuffer
                (st\<lparr>txn := t2\<rparr>) = Inr (NewBuffer, st\<lparr>txn := t2\<rparr>)"
      using here by (rule write_points_all_null)
    from Cons.IH [OF rest, of "st\<lparr>txn := t2\<rparr>"] False c1 c2 wp show ?thesis by simp
  qed
qed

lemma all_null_carries: "all_null env series \<Longrightarrow> \<not> carries env series fk dk"
  unfolding all_null_def carries_def by blast

lemma Write_succeeds:
  assumes "\<not> closed s"
    and "map_of (dbs s) database = None \<longrightarrow> OpenErr os (baseDir s @ ''/'' @ database) d = None"
    and "\<And>t. \<exists>st'. transaction env series t = Inr st'"
  shows "fst (Write os env database series (s, d)) = None"
proof (cases "map_of (dbs s) database")
  case None
  with assms(2) obtain d1 where
    op: "bolt_Open os (baseDir s @ ''/'' @ database) d = Inr (baseDir s @ ''/'' @ database, d1)"
    by (simp add: bolt_Open_def)
  from assms(3) obtain st' where
    "transaction env series (begin_tx (contents d1 (baseDir s @ ''/'' @ database))) = Inr st'"
    by blast
  with assms(1) None op show ?thesis
    by (simp add: Write_def Update_def)
next
  case (Some db)
  from assms(3) obtain st' where "transaction env series (begin_tx (contents d db)) = Inr st'"
    by blast
  with assms(1) Some show ?thesis
    by (simp add: Write_def Update_def)
qed

text \<open>
  C10. A successful \<^verbatim>\<open>Write\<close> registers every non-empty series name of the batch in the
  \<open>series\<close> bucket, whatever the points of the series are. A batch whose series have no
  points, or only points whose values are all null, commits (on an open shard, when the
  database can be opened and the store creates its buckets), and adds nothing to \<open>data\<close>
  and \<open>fields\<close>.
\<close>

theorem C10_series_registered:
  assumes "Write os env database series (s, d) = (r, s', d')"
  shows "(r = None \<longrightarrow>
            (\<exists>db. map_of (dbs s') database = Some db \<and>
               (\<forall>serie\<in>set series. GetName serie \<noteq> [] \<longrightarrow>
                  bytes_of (GetName serie) \<in> dom (entries (contents d' db) ''series'')))) \<and>
         (\<not> closed s \<and>
          (map_of (dbs s) database = None \<longrightarrow>
             OpenErr os (baseDir s @ ''/'' @ database) d = None) \<and>
          (\<forall>name tx. CreateBucketErr env name tx = None) \<and> all_null env series \<longrightarrow>
            r = None \<and>
            (\<exists>db. map_of (dbs s') database = Some db \<and>
               entries (contents d' db) ''data'' = entries (contents d db) ''data'' \<and>
               entries (contents d' db) ''fields'' = entries (contents d db) ''fields''))"
proof (intro conjI impI)
  assume r: "r = None"
  from Write_commit_entries [OF assms [unfolded r]] obtain db M where
    m: "map_of (dbs s') database = Some db" and
    e: "entries (contents d' db) = apply_mutations M (entries (contents d db))" and
    k: "map mutation_key M = map mutation_key (batch_mutations env series)"
    by blast
  have "bytes_of (GetName serie) \<in> dom (entries (contents d' db) ''series'')"
    if "serie \<in> set series" "GetName serie \<noteq> []" for serie
  proof -
    from that have "\<exists>v. (''series'', bytes_of (GetName serie), v) \<in> set (batch_mutations env series)"
      unfolding series_key_in_batch by blast
    then have "\<exists>v. (''series'', bytes_of (GetName serie), v) \<in> set M"
      by (simp only: same_keys [OF k])
    then show ?thesis
      by (simp add: e dom_apply_mutations)
  qed
  with m show "\<exists>db. map_of (dbs s') database = Some db \<and>
               (\<forall>serie\<in>set series. GetName serie \<noteq> [] \<longrightarrow>
                  bytes_of (GetName serie) \<in> dom (entries (contents d' db) ''series''))"
    by blast
next
  assume a: "\<not> closed s \<and>
          (map_of (dbs s) database = None \<longrightarrow>
             OpenErr os (baseDir s @ ''/'' @ database) d = None) \<and>
          (\<forall>name tx. CreateBucketErr env name tx = None) \<and> all_null env series"
  then have "\<And>t. \<exists>st'. transaction env series t = Inr st'"
    unfolding transaction_def using write_series_all_null by blast
  with a have "fst (Write os env database series (s, d)) = None"
    by (intro Write_succeeds) blast+
  with assms show r: "r = None" by simp
  from Write_commit_entries [OF assms [unfolded r]] obtain db M where
    m: "map_of (dbs s') database = Some db" and
    e: "entries (contents d' db) = apply_mutations M (entries (contents d db))" and
    k: "map mutation_key M = map mutation_key (batch_mutations env series)"
    by blast
  from a have nc: "\<not> carries env series fk dk" for fk dk
    by (simp add: all_null_carries)
  have "\<not> (\<exists>v. (''data'', k, v) \<in> set (batch_mutations env series))" for k
    using data_key_in_batch nc by blast
  then have nd: "\<forall>v. (''data'', k, v) \<notin> set M" for k
    unfolding same_keys [OF k, symmetric] by blast
  have "\<not> (\<exists>v. (''fields'', k, v) \<in> set (batch_mutations env series))" for k
    using fields_key_in_batch nc by blast
  then have nf: "\<forall>v. (''fields'', k, v) \<notin> set M" for k
    unfolding same_keys [OF k, symmetric] by blast
  have "entries (contents d' db) ''data'' = entries (contents d db) ''data''"
    by (rule ext) (simp add: e apply_mutations_untouched [OF nd])
  moreover have "entries (contents d' db) ''fields'' = entries (contents d db) ''fields''"
    by (rule ext) (simp add: e apply_mutations_untouched [OF nf])
  ultimately show "\<exists>db. map_of (dbs s') database = Some db \<and>
               entries (contents d' db) ''data'' = entries (contents d db) ''data'' \<and>
               entries (contents d' db) ''fields'' = entries (contents d db) ''fields''"
    using m by blast
qed

lemma ex_nulls_dbs: "dbs (fst ex_nulls) = [(''db'', ''dir/db'')]"
  by (simp add: ex_nulls_def ex_defs shard_defs tx_defs)

theorem C10_series_registered_witness:
  "all_null ex_env [ex_null_serie, ex_empty_serie] \<and>
   fst (Write ex_os ex_env ''db'' [ex_null_serie, ex_empty_serie] ex_start) = None \<and>
   bytes_of ''n'' \<in> dom (entries (contents (snd ex_nulls) ''dir/db'') ''series'') \<and>
   bytes_of ''e'' \<in> dom (entries (contents (snd ex_nulls) ''dir/db'') ''series'') \<and>
   entries (contents (snd ex_nulls) ''dir/db'') ''data'' = Map.empty \<and>
   entries (contents (snd ex_nulls) ''dir/db'') ''fields'' = Map.empty"
proof -
  obtain r s1 d1 where
    w: "Write ex_os ex_env ''db'' [ex_null_serie, ex_empty_serie] (NewBoltShard ''dir'', ex_disk) =
          (r, s1, d1)"
    by (metis prod_cases3)
  have n: "ex_nulls = (s1, d1)"
    using w by (simp add: ex_nulls_def ex_start_def)
  have m: "map_of (dbs s1) ''db'' = Some ''dir/db''"
    using ex_nulls_dbs by (simp add: n)
  have an: "all_null ex_env [ex_null_serie, ex_empty_serie]"
    by (simp add: all_null_def ex_defs tx_defs)
  have pre: "\<not> closed (NewBoltShard ''dir'') \<and>
      (map_of (dbs (NewBoltShard ''dir'')) ''db'' = None \<longrightarrow>
         OpenErr ex_os (baseDir (NewBoltShard ''dir'') @ ''/'' @ ''db'') ex_disk = None) \<and>
      (\<forall>name tx. CreateBucketErr ex_env name tx = None)"
    by (simp add: NewBoltShard_def ex_os_def ex_env_def)
  have names: "GetName ex_null_serie = ''n''" "GetName ex_empty_serie = ''e''"
    by (simp_all add: ex_defs tx_defs)
  have old: "entries (contents ex_disk ''dir/db'') = (\<lambda>name. Map.empty)"
    by (simp add: entries_def contents_def ex_disk_def fun_eq_iff)
  from C10_series_registered [OF w] pre an m names old
  have "r = None \<and>
        bytes_of ''n'' \<in> dom (entries (contents d1 ''dir/db'') ''series'') \<and>
        bytes_of ''e'' \<in> dom (entries (contents d1 ''dir/db'') ''series'') \<and>
        entries (contents d1 ''dir/db'') ''data'' = Map.empty \<and>
        entries (contents d1 ''dir/db'') ''fields'' = Map.empty"
    by auto
  with an w show ?thesis by (simp add: n ex_start_def)
qed

subsection \<open>The index invariant\<close>

lemma dom_same_keys:
  assumes "E' = apply_mutations M E" and "map mutation_key M = map mutation_key ms"
  shows "dom (E' n) = dom (E n) \<union> {k. \<exists>v. (n, k, v) \<in> set ms}"
  by (simp only: assms(1) dom_apply_mutations same_keys [OF assms(2)])

lemma index_inv_batch:
  assumes inv: "index_inv st"
    and e: "\<forall>n. dom (entries st' n) =
                dom (entries st n) \<union> {k. \<exists>v. (n, k, v) \<in> set (batch_mutations env series)}"
    and enc: "encodable env series"
  shows "index_inv st'"
  unfolding index_inv_def
proof
  fix k
  assume "k \<in> dom (entries st' ''data'')"
  then consider (old) "k \<in> dom (entries st ''data'')"
    | (new) v where "(''data'', k, v) \<in> set (batch_mutations env series)"
    by (auto simp: e)
  then show "\<exists>name ts sq field.
          k = dataBucketKey (keyBuffer name ts sq) field \<and>
          bytes_of name \<in> dom (entries st' ''series'') \<and>
          fieldBucketKey name field \<in> dom (entries st' ''fields'')"
  proof cases
    case old
    with inv obtain name ts sq field where
      k: "k = dataBucketKey (keyBuffer name ts sq) field" and
      s: "bytes_of name \<in> dom (entries st ''series'')" and
      f: "fieldBucketKey name field \<in> dom (entries st ''fields'')"
      unfolding index_inv_def by blast
    from s f have
      "bytes_of name \<in> dom (entries st' ''series'')"
      "fieldBucketKey name field \<in> dom (entries st' ''fields'')"
      by (simp_all add: e)
    with k show ?thesis by blast
  next
    case new
    from data_key_in_batch [OF new] obtain fk where c: "carries env series fk k" by blast
    from carries_series_key [OF c] obtain name ts sq field where
      k: "k = dataBucketKey (keyBuffer name ts sq) field" and
      fk: "fk = fieldBucketKey name field" and
      s: "(''series'', bytes_of name, []) \<in> set (batch_mutations env series)"
      by blast
    from carries_in_batch [OF enc c] have
      f: "(''fields'', fk, []) \<in> set (batch_mutations env series)"
      by blast
    from s have "bytes_of name \<in> dom (entries st' ''series'')"
      by (auto simp: e)
    moreover from f have "fieldBucketKey name field \<in> dom (entries st' ''fields'')"
      by (auto simp: e fk)
    ultimately show ?thesis using k by blast
  qed
qed

lemma set_update_subset: "set (AList.update k v al) \<subseteq> insert (k, v) (set al)"
  by (induction al) auto

lemma cache_ok_update:
  "cache_ok s \<Longrightarrow>
   cache_ok (s\<lparr>dbs := AList.update database (baseDir s @ ''/'' @ database) (dbs s)\<rparr>)"
proof -
  assume c: "cache_ok s"
  have "db = baseDir s @ ''/'' @ name"
    if "(name, db) \<in> set (AList.update database (baseDir s @ ''/'' @ database) (dbs s))"
    for name db
  proof -
    from that have "(name, db) \<in> set (dbs s) \<or> (name, db) = (database, baseDir s @ ''/'' @ database)"
      using set_update_subset [of database "baseDir s @ ''/'' @ database" "dbs s"] by auto
    with c show ?thesis by (auto simp: cache_ok_def)
  qed
  then show ?thesis by (auto simp: cache_ok_def)
qed

lemma Write_step:
  assumes w: "Write os env database series (s, d) = (None, s', d')" and c: "cache_ok s"
  shows "cache_ok s'" and "baseDir s' = baseDir s"
    and "\<exists>db. db = baseDir s @ ''/'' @ database \<and>
           (\<forall>n. dom (entries (contents d' db) n) =
                  dom (entries (contents d db) n) \<union>
                  {k. \<exists>v. (n, k, v) \<in> set (batch_mutations env series)}) \<and>
           (\<forall>path. path \<noteq> db \<longrightarrow> contents d' path = contents d path) \<and>
           encodable env series"
proof -
  from Write_commit [OF w] obtain db st1 where
    m: "map_of (dbs s') database = Some db" and
    k: "map_of (dbs s) database = Some db \<and> s' = s \<or>
        map_of (dbs s) database = None \<and> db = baseDir s @ ''/'' @ database \<and>
          OpenErr os db d = None \<and> s' = s\<lparr>dbs := AList.update database db (dbs s)\<rparr>"
    by blast
  have db: "db = baseDir s @ ''/'' @ database"
  proof -
    from k consider "map_of (dbs s) database = Some db" | "db = baseDir s @ ''/'' @ database"
      by blast
    then show ?thesis
    proof cases
      case 1
      then have "(database, db) \<in> set (dbs s)" by (rule map_of_SomeD)
      with c show ?thesis by (auto simp: cache_ok_def)
    qed
  qed
  from k show "cache_ok s'"
    using c cache_ok_update [OF c, of database] db by auto
  from k show "baseDir s' = baseDir s" by auto
  from Write_commit_entries [OF w] m obtain M where
    e: "entries (contents d' db) = apply_mutations M (entries (contents d db))" and
    ks: "map mutation_key M = map mutation_key (batch_mutations env series)" and
    o: "\<forall>path. path \<noteq> db \<longrightarrow> contents d' path = contents d path" and
    enc: "encodable env series"
    by auto
  from dom_same_keys [OF e ks] o enc db
  show "\<exists>db. db = baseDir s @ ''/'' @ database \<and>
           (\<forall>n. dom (entries (contents d' db) n) =
                  dom (entries (contents d db) n) \<union>
                  {k. \<exists>v. (n, k, v) \<in> set (batch_mutations env series)}) \<and>
           (\<forall>path. path \<noteq> db \<longrightarrow> contents d' path = contents d path) \<and>
           encodable env series"
    by auto
qed

lemma Write_step_inv:
  assumes "Write os env database series (s, d) = (None, s', d')" and "cache_ok s"
    and "\<forall>path. index_inv (contents d path)"
  shows "\<forall>path. index_inv (contents d' path)"
proof
  fix path
  from Write_step(3) [OF assms(1,2)] obtain db where
    e: "\<forall>n. dom (entries (contents d' db) n) =
              dom (entries (contents d db) n) \<union>
              {k. \<exists>v. (n, k, v) \<in> set (batch_mutations env series)}" and
    o: "\<forall>path. path \<noteq> db \<longrightarrow> contents d' path = contents d path" and
    enc: "encodable env series"
    by blast
  show "index_inv (contents d' path)"
  proof (cases "path = db")
    case True
    from assms(3) have "index_inv (contents d db)" by blast
    from index_inv_batch [OF this e enc] True show ?thesis by simp
  next
    case False
    with o assms(3) show ?thesis by simp
  qed
qed

lemma Write_step_fields:
  assumes "Write os env database series (s, d) = (None, s', d')" and "cache_ok s"
    and "k \<in> dom (entries (contents d' path) ''fields'')"
  shows "k \<in> dom (entries (contents d path) ''fields'') \<or>
         path = baseDir s @ ''/'' @ database \<and> (\<exists>dk. carries env series k dk)"
proof -
  from Write_step(3) [OF assms(1,2)] obtain db where
    db: "db = baseDir s @ ''/'' @ database" and
    e: "\<forall>n. dom (entries (contents d' db) n) =
              dom (entries (contents d db) n) \<union>
              {k. \<exists>v. (n, k, v) \<in> set (batch_mutations env series)}" and
    o: "\<forall>path. path \<noteq> db \<longrightarrow> contents d' path = contents d path"
    by blast
  show ?thesis
  proof (cases "path = db")
    case True
    with assms(3) have "k \<in> dom (entries (contents d db) ''fields'') \<or>
        (\<exists>v. (''fields'', k, v) \<in> set (batch_mutations env series))"
      by (simp add: e)
    with True db show ?thesis
      using fields_key_in_batch by blast
  next
    case False
    with o assms(3) show ?thesis by simp
  qed
qed

lemma Write_step_data:
  assumes "Write os env database series (s, d) = (None, s', d')" and "cache_ok s"
    and "k \<in> dom (entries (contents d' path) ''data'')"
  shows "k \<in> dom (entries (contents d path) ''data'') \<or>
         path = baseDir s @ ''/'' @ database \<and> (\<exists>fk. carries env series fk k)"
proof -
  from Write_step(3) [OF assms(1,2)] obtain db where
    db: "db = baseDir s @ ''/'' @ database" and
    e: "\<forall>n. dom (entries (contents d' db) n) =
              dom (entries (contents d db) n) \<union>
              {k. \<exists>v. (n, k, v) \<in> set (batch_mutations env series)}" and
    o: "\<forall>path. path \<noteq> db \<longrightarrow> contents d' path = contents d path"
    by blast
  show ?thesis
  proof (cases "path = db")
    case True
    with assms(3) have "k \<in> dom (entries (contents d db) ''data'') \<or>
        (\<exists>v. (''data'', k, v) \<in> set (batch_mutations env series))"
      by (simp add: e)
    with True db show ?thesis
      using data_key_in_batch by blast
  next
    case False
    with o assms(3) show ?thesis by simp
  qed
qed

lemma Writes_Cons:
  "Writes os env ((database, series) # rest) (s, d) = Some sd' \<Longrightarrow>
   \<exists>s1 d1. Write os env database series (s, d) = (None, s1, d1) \<and>
           Writes os env rest (s1, d1) = Some sd'"
  by (cases "Write os env database series (s, d)") (auto split: option.splits)

lemma Writes_inv:
  "Writes os env ws (s, d) = Some (s', d') \<Longrightarrow> cache_ok s \<Longrightarrow>
   \<forall>path. index_inv (contents d path) \<Longrightarrow> \<forall>path. index_inv (contents d' path)"
proof (induction ws arbitrary: s d)
  case Nil
  then show ?case by simp
next
  case (Cons w ws)
  obtain database series where w: "w = (database, series)" by (cases w)
  from Writes_Cons [OF Cons.prems(1) [unfolded w]] obtain s1 d1 where
    w1: "Write os env database series (s, d) = (None, s1, d1)" and
    r: "Writes os env ws (s1, d1) = Some (s', d')"
    by blast
  from Write_step(1) [OF w1 Cons.prems(2)] Write_step_inv [OF w1 Cons.prems(2,3)]
  show ?case by (rule Cons.IH [OF r])
qed

lemma Writes_fields:
  "Writes os env ws (s, d) = Some (s', d') \<Longrightarrow> cache_ok s \<Longrightarrow>
   k \<in> dom (entries (contents d' path) ''fields'') \<Longrightarrow>
   k \<in> dom (entries (contents d path) ''fields'') \<or>
   (\<exists>(database, series)\<in>set ws. path = baseDir s @ ''/'' @ database \<and>
      (\<exists>dk. carries env series k dk))"
proof (induction ws arbitrary: s d)
  case Nil
  then show ?case by simp
next
  case (Cons w ws)
  obtain database series where w: "w = (database, series)" by (cases w)
  from Writes_Cons [OF Cons.prems(1) [unfolded w]] obtain s1 d1 where
    w1: "Write os env database series (s, d) = (None, s1, d1)" and
    r: "Writes os env ws (s1, d1) = Some (s', d')"
    by blast
  from Cons.IH [OF r Write_step(1) [OF w1 Cons.prems(2)] Cons.prems(3)]
  consider (mid) "k \<in> dom (entries (contents d1 path) ''fields'')"
    | (later) "\<exists>(database, series)\<in>set ws. path = baseDir s1 @ ''/'' @ database \<and>
        (\<exists>dk. carries env series k dk)"
    by blast
  then show ?case
  proof cases
    case mid
    from Write_step_fields [OF w1 Cons.prems(2) mid] show ?thesis
      by (auto simp: w)
  next
    case later
    with Write_step(2) [OF w1 Cons.prems(2)] show ?thesis
      by auto
  qed
qed

lemma Writes_data:
  "Writes os env ws (s, d) = Some (s', d') \<Longrightarrow> cache_ok s \<Longrightarrow>
   k \<in> dom (entries (contents d' path) ''data'') \<Longrightarrow>
   k \<in> dom (entries (contents d path) ''data'') \<or>
   (\<exists>(database, series)\<in>set ws. path = baseDir s @ ''/'' @ database \<and>
      (\<exists>fk. carries env series fk k))"
proof (induction ws arbitrary: s d)
  case Nil
  then show ?case by simp
next
  case (Cons w ws)
  obtain database series where w: "w = (database, series)" by (cases w)
  from Writes_Cons [OF Cons.prems(1) [unfolded w]] obtain s1 d1 where
    w1: "Write os env database series (s, d) = (None, s1, d1)" and
    r: "Writes os env ws (s1, d1) = Some (s', d')"
    by blast
  from Cons.IH [OF r Write_step(1) [OF w1 Cons.prems(2)] Cons.prems(3)]
  consider (mid) "k \<in> dom (entries (contents d1 path) ''data'')"
    | (later) "\<exists>(database, series)\<in>set ws. path = baseDir s1 @ ''/'' @ database \<and>
        (\<exists>fk. carries env series fk k)"
    by blast
  then show ?case
  proof cases
    case mid
    from Write_step_data [OF w1 Cons.prems(2) mid] show ?thesis
      by (auto simp: w)
  next
    case later
    with Write_step(2) [OF w1 Cons.prems(2)] show ?thesis
      by auto
  qed
qed

text \<open>
  C2. After any sequence of committed \<^verbatim>\<open>Write\<close> calls on a shard whose databases
  satisfied the index invariant (a new shard over new files does), every database
  satisfies it: every key of \<open>data\<close> was built from a series name that has its entry in
  \<open>series\<close> and a field name whose pair has its entry in \<open>fields\<close>. Null values leave no
  trace: every key that the calls added to \<open>fields\<close> or to \<open>data\<close> of a database is the key
  of a non-null value that one of the batches written to this database carries. So
  a field whose values are null in every point written has no entry in \<open>fields\<close> and none
  in \<open>data\<close>.
\<close>

theorem C2_index_invariant:
  assumes "Writes os env ws (s, d) = Some (s', d')"
    and "cache_ok s"
    and "\<forall>path. index_inv (contents d path)"
  shows "(\<forall>path. index_inv (contents d' path)) \<and>
         (\<forall>path k. k \<in> dom (entries (contents d' path) ''fields'') \<longrightarrow>
            k \<in> dom (entries (contents d path) ''fields'') \<or>
            (\<exists>(database, series)\<in>set ws. path = baseDir s @ ''/'' @ database \<and>
               (\<exists>dk. carries env series k dk))) \<and>
         (\<forall>path k. k \<in> dom (entries (contents d' path) ''data'') \<longrightarrow>
            k \<in> dom (entries (contents d path) ''data'') \<or>
            (\<exists>(database, series)\<in>set ws. path = baseDir s @ ''/'' @ database \<and>
               (\<exists>fk. carries env series fk k)))"
  using Writes_inv [OF assms] Writes_fields [OF assms(1,2)] Writes_data [OF assms(1,2)]
  by blast

lemma ex_writes_commit: "\<exists>sd. Writes ex_os ex_env ex_writes ex_start = Some sd"
  by (simp add: ex_writes_def ex_defs shard_defs tx_defs)

lemma ex_start_ok:
  "cache_ok (fst ex_start)" "\<forall>path. index_inv (contents (snd ex_start) path)"
  "entries (contents (snd ex_start) path) name = Map.empty"
  by (simp_all add: cache_ok_def index_inv_def entries_def ex_defs shard_defs)

lemma carries_single:
  "carries env [serie] fk dk \<Longrightarrow>
   \<exists>point\<in>set (GetPoints serie). \<exists>i<length (Fields serie).
      \<not> GetIsNull env (Values point ! i) \<and>
      fk = fieldBucketKey (GetName serie) (Fields serie ! i)"
  by (auto simp: carries_def)

lemma ex_not_carried:
  "\<not> carries ex_env [ex_serie] (fieldBucketKey ''s'' ''b'') dk"
  "\<not> carries ex_env [ex_null_serie] (fieldBucketKey ''s'' ''b'') dk"
proof -
  show "\<not> carries ex_env [ex_serie] (fieldBucketKey ''s'' ''b'') dk"
  proof
    assume "carries ex_env [ex_serie] (fieldBucketKey ''s'' ''b'') dk"
    from carries_single [OF this] obtain point i where
      p: "point \<in> set (GetPoints ex_serie)" and
      i: "i < length (Fields ex_serie)" and
      nn: "\<not> GetIsNull ex_env (Values point ! i)" and
      k: "fieldBucketKey ''s'' ''b'' = fieldBucketKey (GetName ex_serie) (Fields ex_serie ! i)"
      by blast
    from p have pt: "point = ex_point"
      by (simp add: GetPoints_def ex_serie_def)
    from i have "i < 2" by (simp add: ex_serie_def)
    then consider "i = 0" | "i = 1" by linarith
    then show False
    proof cases
      case 1
      with k show False
        by (simp add: fieldBucketKey_def bytes_of_def GetName_def ex_serie_def)
    next
      case 2
      with nn pt show False
        by (simp add: ex_env_def ex_point_def)
    qed
  qed
  show "\<not> carries ex_env [ex_null_serie] (fieldBucketKey ''s'' ''b'') dk"
  proof
    assume "carries ex_env [ex_null_serie] (fieldBucketKey ''s'' ''b'') dk"
    from carries_single [OF this] obtain point i where
      p: "point \<in> set (GetPoints ex_null_serie)" and
      i: "i < length (Fields ex_null_serie)" and
      nn: "\<not> GetIsNull ex_env (Values point ! i)"
      by blast
    from i have "i = 0" by (simp add: ex_null_serie_def)
    with p nn show False
      by (simp add: GetPoints_def ex_null_serie_def ex_env_def)
  qed
qed

theorem C2_index_invariant_witness:
  "\<exists>s' d'. Writes ex_os ex_env ex_writes ex_start = Some (s', d') \<and>
      (\<forall>path. index_inv (contents d' path)) \<and>
      fieldBucketKey ''s'' ''b'' \<notin> dom (entries (contents d' ''dir/db'') ''fields'')"
proof -
  from ex_writes_commit obtain s' d' where
    w: "Writes ex_os ex_env ex_writes ex_start = Some (s', d')"
    by auto
  obtain s0 d0 where st: "ex_start = (s0, d0)" by (cases ex_start)
  have c: "cache_ok s0" and i: "\<forall>path. index_inv (contents d0 path)"
    and e: "dom (entries (contents d0 ''dir/db'') ''fields'') = {}"
    using ex_start_ok by (simp_all add: st)
  have n: "\<not> (\<exists>(database, series)\<in>set ex_writes. p = baseDir s0 @ ''/'' @ database \<and>
              (\<exists>dk. carries ex_env series (fieldBucketKey ''s'' ''b'') dk))" for p
    using ex_not_carried by (simp add: ex_writes_def)
  from C2_index_invariant [OF w [unfolded st] c i] e n
  have "(\<forall>path. index_inv (contents d' path)) \<and>
        fieldBucketKey ''s'' ''b'' \<notin> dom (entries (contents d' ''dir/db'') ''fields'')"
    by blast
  with w show ?thesis by blast
qed

subsection \<open>Closing the shard and dropping a database\<close>

lemma delete_keys_image: "fst ` set (AList.delete k al) = fst ` set al - {k}"
  by (induction al) auto

lemma close_range_shard:
  "closed (fst (close_range xs (s, d))) = closed s \<and>
   baseDir (fst (close_range xs (s, d))) = baseDir s \<and>
   fst ` set (dbs (fst (close_range xs (s, d)))) = fst ` set (dbs s) - fst ` set xs"
proof (induction xs arbitrary: s d)
  case Nil
  then show ?case by simp
next
  case (Cons x xs)
  obtain databaseName db where x: "x = (databaseName, db)" by (cases x)
  have "fst ` set (AList.delete databaseName (dbs s)) = fst ` set (dbs s) - {databaseName}"
    by (rule delete_keys_image)
  with Cons.IH [of "s\<lparr>dbs := AList.delete databaseName (dbs s)\<rparr>" "Close db d"]
  show ?case by (auto simp: x)
qed

lemma close_result:
  "closed (fst (close sd))" "dbs (fst (close sd)) = []" "baseDir (fst (close sd)) = baseDir (fst sd)"
proof -
  obtain s d where sd: "sd = (s, d)" by (cases sd)
  obtain s1 d1 where c: "close_range (dbs s) (s, d) = (s1, d1)"
    by (cases "close_range (dbs s) (s, d)")
  from close_range_shard [of "dbs s" s d] c have
    "fst ` set (dbs s1) = {}" and b: "baseDir s1 = baseDir s"
    by simp_all
  then have e: "dbs s1 = []" by simp
  show "closed (fst (close sd))" by (simp add: close_def sd c)
  show "dbs (fst (close sd)) = []" by (simp add: close_def sd c e)
  show "baseDir (fst (close sd)) = baseDir (fst sd)" by (simp add: close_def sd c b)
qed

lemma close_closed: "close (close sd) = close sd"
proof -
  obtain s d where c: "close sd = (s, d)" by (cases "close sd")
  from close_result(1,2) [of sd] c have "closed s" "dbs s = []" by simp_all
  then have "close (s, d) = (s, d)" by (simp add: close_def)
  then show ?thesis by (simp only: c)
qed

lemma Write_keeps_closed: "closed (fst (snd (Write os env database series sd))) = closed (fst sd)"
  by (cases sd) (auto simp: Write_def split: option.splits sum.splits prod.splits)

lemma Query_keeps_closed: "closed (fst (snd (Query os hs q p sd))) = closed (fst sd)"
  by (cases sd) (auto simp: Query_def split: option.splits sum.splits prod.splits)

lemma DropDatabase_keeps_closed: "closed (fst (snd (DropDatabase os database sd))) = closed (fst sd)"
  by (cases sd) (auto simp: DropDatabase_def split: option.splits prod.splits)

lemma call_step_closed: "closed (fst sd) \<Longrightarrow> closed (fst (call_step os env hs c sd))"
  by (cases c)
    (simp_all add: Write_keeps_closed Query_keeps_closed DropDatabase_keeps_closed close_result)

lemma calls_closed: "closed (fst sd) \<Longrightarrow> closed (fst (calls os env hs cs sd))"
  by (induction cs arbitrary: sd) (simp_all add: call_step_closed)

text \<open>
  C6. After \<^verbatim>\<open>close\<close> and any further calls of the shard (writes, queries, drops, closes),
  every \<^verbatim>\<open>Write\<close>, for any database and any batch, returns the error "shard closed" and
  changes neither the shard nor any file; \<^verbatim>\<open>IsClosed\<close> returns true; \<^verbatim>\<open>close\<close> can be
  called again (it has no error to return), the shard stays closed, and closing twice in a
  row is the same as closing once.
\<close>

theorem C6_closed_shard:
  "Write os env database series (calls os env hs cs (close sd)) =
     (Some ErrShardClosed, calls os env hs cs (close sd)) \<and>
   IsClosed (fst (calls os env hs cs (close sd))) \<and>
   IsClosed (fst (close (calls os env hs cs (close sd)))) \<and>
   close (close sd) = close sd"
proof -
  obtain s d where c: "calls os env hs cs (close sd) = (s, d)"
    by (cases "calls os env hs cs (close sd)")
  have "closed (fst (calls os env hs cs (close sd)))"
    by (rule calls_closed) (rule close_result)
  with c have "closed s" by simp
  then show ?thesis
    by (simp add: c Write_closed IsClosed_def close_result close_closed)
qed

theorem C6_closed_shard_witness:
  "Write ex_os ex_env ''db'' [ex_serie] (close ex_written) =
     (Some ErrShardClosed, close ex_written) \<and>
   IsClosed (fst (close ex_written)) \<and>
   Write ex_os ex_env ''db'' [ex_serie]
     (calls ex_os ex_env ex_handlers [CallQuery ex_query (), CallWrite ''x'' [ex_serie]]
        (close ex_written)) =
     (Some ErrShardClosed,
      calls ex_os ex_env ex_handlers [CallQuery ex_query (), CallWrite ''x'' [ex_serie]]
        (close ex_written))"
  using C6_closed_shard [of ex_os ex_env "''db''" "[ex_serie]" ex_handlers "[]" ex_written]
    C6_closed_shard [of ex_os ex_env "''db''" "[ex_serie]" ex_handlers
      "[CallQuery ex_query (), CallWrite ''x'' [ex_serie]]" ex_written]
  by simp

text \<open>
  C7. The claim that no call after \<^verbatim>\<open>close\<close> opens or caches a handle fails for
  \<^verbatim>\<open>Query\<close>, which does not test the flag: on a new shard that was closed, a query for
  the database \<open>db\<close> opens the file \<open>dir/db\<close> and puts the handle into the cache of the
  closed shard.
\<close>

theorem C7_query_after_close:
  "closed (fst (close ex_start)) \<and> map_of (dbs (fst (close ex_start))) ''db'' = None \<and>
   ''dir/db'' \<notin> opened (snd (close ex_start)) \<and>
   fst (Query ex_os ex_handlers ex_query () (close ex_start)) = None \<and>
   closed (fst (snd (Query ex_os ex_handlers ex_query () (close ex_start)))) \<and>
   map_of (dbs (fst (snd (Query ex_os ex_handlers ex_query () (close ex_start))))) ''db'' =
     Some ''dir/db'' \<and>
   ''dir/db'' \<in> opened (snd (snd (Query ex_os ex_handlers ex_query () (close ex_start))))"
  by (simp add: ex_defs shard_defs)

text \<open>
  C8. \<^verbatim>\<open>DropDatabase\<close> of a database without a cached handle returns nil and changes
  nothing. With a cached handle it closes the handle, removes the entry from the cache
  (the other entries stay) and returns what the removal of the file
  \<open>baseDir/database\<close> returns: on success the file is gone, on failure the error is
  returned, the files are as before, and the handle is evicted all the same.
\<close>

theorem C8_drop_database:
  assumes "DropDatabase os database (s, d) = (r, s', d')"
  shows "(map_of (dbs s) database = None \<longrightarrow> r = None \<and> s' = s \<and> d' = d) \<and>
         (\<forall>db. map_of (dbs s) database = Some db \<longrightarrow>
            db \<notin> opened d' \<and> opened d' = opened d - {db} \<and>
            map_of (dbs s') database = None \<and>
            (\<forall>name. name \<noteq> database \<longrightarrow> map_of (dbs s') name = map_of (dbs s) name) \<and>
            baseDir s' = baseDir s \<and> closed s' = closed s \<and>
            r = RemoveErr os (baseDir s @ ''/'' @ database) (Close db d) \<and>
            (r = None \<longrightarrow> files d' = (files d)(baseDir s @ ''/'' @ database := None)) \<and>
            (r \<noteq> None \<longrightarrow> files d' = files d))"
proof (cases "map_of (dbs s) database")
  case None
  with assms show ?thesis by (simp add: DropDatabase_def)
next
  case (Some db)
  let ?path = "baseDir s @ ''/'' @ database"
  from assms Some have
    s': "s' = s\<lparr>dbs := AList.delete database (dbs s)\<rparr>" and
    rm: "os_Remove os ?path (Close db d) = (r, d')"
    by (auto simp: DropDatabase_def split: prod.splits)
  have m: "map_of (dbs s') = (map_of (dbs s))(database := None)"
    by (simp add: s' delete_conv')
  show ?thesis
  proof (cases "RemoveErr os ?path (Close db d)")
    case None
    with rm have "r = None" and "d' = (Close db d)\<lparr>files := (files (Close db d))(?path := None)\<rparr>"
      by (simp_all add: os_Remove_def)
    with Some None m s' show ?thesis
      by (simp add: Close_def)
  next
    case (Some e)
    with rm have "r = Some e" and "d' = Close db d"
      by (simp_all add: os_Remove_def)
    with \<open>map_of (dbs s) database = Some db\<close> Some m s' show ?thesis
      by (simp add: Close_def)
  qed
qed

lemma ex_written_baseDir: "baseDir (fst ex_written) = ''dir''"
  by (simp add: ex_written_def ex_defs shard_defs tx_defs)

theorem C8_drop_database_witness:
  "DropDatabase ex_os ''db'' ex_start = (None, ex_start) \<and>
   fst (DropDatabase ex_os_fail ''db'' ex_written) = Some (ErrExternal ''remove'') \<and>
   map_of (dbs (fst (snd (DropDatabase ex_os_fail ''db'' ex_written)))) ''db'' = None \<and>
   ''dir/db'' \<notin> opened (snd (snd (DropDatabase ex_os_fail ''db'' ex_written))) \<and>
   files (snd (snd (DropDatabase ex_os_fail ''db'' ex_written))) = files (snd ex_written) \<and>
   fst (DropDatabase ex_os ''db'' ex_written) = None \<and>
   files (snd (snd (DropDatabase ex_os ''db'' ex_written))) ''dir/db'' = None"
proof -
  obtain s0 d0 where st: "ex_start = (s0, d0)" by (cases ex_start)
  obtain s1 d1 where w: "ex_written = (s1, d1)" by (cases ex_written)
  obtain ra sa da where a: "DropDatabase ex_os ''db'' (s0, d0) = (ra, sa, da)"
    by (metis prod_cases3)
  obtain rb sb db where b: "DropDatabase ex_os_fail ''db'' (s1, d1) = (rb, sb, db)"
    by (metis prod_cases3)
  obtain rc sc dc where c: "DropDatabase ex_os ''db'' (s1, d1) = (rc, sc, dc)"
    by (metis prod_cases3)
  have "map_of (dbs (fst ex_start)) ''db'' = None"
    by (simp add: ex_start_def NewBoltShard_def)
  then have m0: "map_of (dbs s0) ''db'' = None"
    by (simp add: st)
  have m1: "map_of (dbs s1) ''db'' = Some ''dir/db''" and b1: "baseDir s1 = ''dir''"
    using ex_written_dbs ex_written_baseDir by (simp_all add: w)
  have rf: "RemoveErr ex_os_fail p x = Some (ErrExternal ''remove'')"
    and ro: "RemoveErr ex_os p x = None" for p x
    by (simp_all add: ex_os_fail_def ex_os_def)
  from C8_drop_database [OF a] m0 have "ra = None \<and> sa = s0 \<and> da = d0"
    by blast
  moreover from C8_drop_database [OF b] m1 b1 rf have
    "rb = Some (ErrExternal ''remove'') \<and> map_of (dbs sb) ''db'' = None \<and>
     ''dir/db'' \<notin> opened db \<and> files db = files d1"
    by simp
  moreover from C8_drop_database [OF c] m1 b1 ro have
    "rc = None \<and> files dc ''dir/db'' = None"
    by simp
  ultimately show ?thesis
    by (simp add: st w a b c)
qed

end
